theory Spec2Isabelle
  imports Main "HOL-Library.Word" "HOL-Library.Tree"
begin

section \<open>The debugger services used by LibCxxMap.cpp\<close>

text \<open>
  LibCxxMap.cpp reads the inspected process only through lldb's \<^verbatim>\<open>ValueObject\<close> and
  \<^verbatim>\<open>CompilerType\<close> interfaces, whose code is not part of the file. They are taken as a
  parameter: a record of functions, one per member function the file calls. A value
  object is a handle of an arbitrary type \<open>'v\<close>, a shared or raw pointer to one is a
  \<open>'v option\<close> (\<open>None\<close> is the null pointer), a valid compiler type is a \<open>'ty\<close> and a
  \<^verbatim>\<open>CompilerType\<close> is a \<open>'ty option\<close> (\<open>None\<close> is the invalid, default-constructed type).
  The functions are pure: the inspected process does not change between two calls
  (a change of the process is followed by \<^verbatim>\<open>Update()\<close>).

  Sizes and counters of type \<^verbatim>\<open>size_t\<close> that only count loop iterations are natural
  numbers. Every such counter is bounded by \<open>m_max_depth + 1\<close> or by the requested index,
  both of which come from a \<^verbatim>\<open>uint32_t\<close>, so that none wraps around in a 64-bit
  \<^verbatim>\<open>size_t\<close>. The fields \<open>m_count\<close> and \<open>m_skip_size\<close>, whose width matters, are words.
\<close>

record ('v, 'ty) debugger =
  \<comment> \<open>\<^verbatim>\<open>GetProcessSP()->GetAddressByteSize()\<close>; the process is assumed to be live\<close>
  vo_GetAddressByteSize :: nat
  \<comment> \<open>\<^verbatim>\<open>v->GetCompilerType()\<close>\<close>
  vo_GetCompilerType :: "'v \<Rightarrow> 'ty option"
  \<comment> \<open>\<^verbatim>\<open>v->GetSyntheticChildAtOffset(offset, type, true)\<close>\<close>
  vo_GetSyntheticChildAtOffset :: "'v \<Rightarrow> nat \<Rightarrow> 'ty option \<Rightarrow> 'v option"
  \<comment> \<open>the scalar \<^verbatim>\<open>v->GetValueAsUnsigned(fail_value)\<close> resolves, or \<open>None\<close> when it
    returns \<^verbatim>\<open>fail_value\<close>\<close>
  vo_ResolveValue :: "'v \<Rightarrow> 64 word option"
  \<comment> \<open>\<^verbatim>\<open>v->GetError().Fail()\<close>\<close>
  vo_GetErrorFail :: "'v \<Rightarrow> bool"
  \<comment> \<open>\<^verbatim>\<open>v->GetChildMemberWithName(name)\<close>\<close>
  vo_GetChildMemberWithName :: "'v \<Rightarrow> string \<Rightarrow> 'v option"
  \<comment> \<open>\<^verbatim>\<open>v.GetChildAtNamePath(names)\<close>\<close>
  vo_GetChildAtNamePath :: "'v \<Rightarrow> string list \<Rightarrow> 'v option"
  \<comment> \<open>\<^verbatim>\<open>GetFirstValueOfLibCXXCompressedPair(v)\<close>, declared in LibCxx.h\<close>
  GetFirstValueOfLibCXXCompressedPair :: "'v \<Rightarrow> 'v option"
  \<comment> \<open>\<^verbatim>\<open>v->Dereference(error)\<close>: the result and \<^verbatim>\<open>error.Fail()\<close>\<close>
  vo_Dereference :: "'v \<Rightarrow> 'v option \<times> bool"
  \<comment> \<open>\<^verbatim>\<open>v->Clone(ConstString(name))\<close>\<close>
  vo_Clone :: "'v \<Rightarrow> string \<Rightarrow> 'v option"
  \<comment> \<open>\<^verbatim>\<open>v->GetNumChildrenIgnoringErrors()\<close>\<close>
  vo_GetNumChildrenIgnoringErrors :: "'v \<Rightarrow> 32 word"
  \<comment> \<open>\<^verbatim>\<open>v->GetChildAtIndex(idx)\<close>\<close>
  vo_GetChildAtIndex :: "'v \<Rightarrow> 32 word \<Rightarrow> 'v option"
  \<comment> \<open>\<^verbatim>\<open>v->GetName()\<close>\<close>
  vo_GetName :: "'v \<Rightarrow> string"
  \<comment> \<open>\<^verbatim>\<open>t.GetTypeTemplateArgument(i)\<close> of a valid type\<close>
  ty_GetTypeTemplateArgument :: "'ty \<Rightarrow> nat \<Rightarrow> 'ty option"
  \<comment> \<open>\<^verbatim>\<open>t.GetFieldAtIndex(i, ...)\<close> of a valid type\<close>
  ty_GetFieldAtIndex :: "'ty \<Rightarrow> nat \<Rightarrow> 'ty option"
  \<comment> \<open>\<^verbatim>\<open>t.GetTypedefedType()\<close> of a valid type\<close>
  ty_GetTypedefedType :: "'ty \<Rightarrow> 'ty option"
  \<comment> \<open>lines 300 to 326 of \<^verbatim>\<open>GetValueOffset\<close>: the type system of the node's type builds
    the struct \<^verbatim>\<open>{ptr0, ptr1, ptr2, cw, payload}\<close> around the element type and gives the
    byte offset of its field 4, cast to \<^verbatim>\<open>uint32_t\<close>; \<open>None\<close> when the type system is
    not Clang's or the field's type is not valid\<close>
  ty_PayloadByteOffset :: "'ty option \<Rightarrow> 'ty option \<Rightarrow> 32 word option"

definition GetValueAsUnsigned :: "('v, 'ty) debugger \<Rightarrow> 'v \<Rightarrow> 64 word \<Rightarrow> 64 word" where
  "GetValueAsUnsigned D v fail_value =
     (case vo_ResolveValue D v of None \<Rightarrow> fail_value | Some x \<Rightarrow> x)"

definition UINT32_MAX :: "'a::len word" where
  "UINT32_MAX = 0xFFFFFFFF"

section \<open>MapEntry (lines 26 to 80)\<close>

text \<open>A \<^verbatim>\<open>MapEntry\<close> wraps one shared pointer \<^verbatim>\<open>m_entry_sp\<close>: it is a \<open>'v option\<close>.\<close>

definition MapEntry_left :: "('v, 'ty) debugger \<Rightarrow> 'v option \<Rightarrow> 'v option" where
  "MapEntry_left D m_entry_sp =
     (case m_entry_sp of
        None \<Rightarrow> None
      | Some v \<Rightarrow> vo_GetSyntheticChildAtOffset D v 0 (vo_GetCompilerType D v))"

definition MapEntry_right :: "('v, 'ty) debugger \<Rightarrow> 'v option \<Rightarrow> 'v option" where
  "MapEntry_right D m_entry_sp =
     (case m_entry_sp of
        None \<Rightarrow> None
      | Some v \<Rightarrow>
          vo_GetSyntheticChildAtOffset D v (vo_GetAddressByteSize D) (vo_GetCompilerType D v))"

definition MapEntry_parent :: "('v, 'ty) debugger \<Rightarrow> 'v option \<Rightarrow> 'v option" where
  "MapEntry_parent D m_entry_sp =
     (case m_entry_sp of
        None \<Rightarrow> None
      | Some v \<Rightarrow>
          vo_GetSyntheticChildAtOffset D v (2 * vo_GetAddressByteSize D) (vo_GetCompilerType D v))"

definition MapEntry_value :: "('v, 'ty) debugger \<Rightarrow> 'v option \<Rightarrow> 64 word" where
  "MapEntry_value D m_entry_sp =
     (case m_entry_sp of None \<Rightarrow> 0 | Some v \<Rightarrow> GetValueAsUnsigned D v 0)"

definition MapEntry_error :: "('v, 'ty) debugger \<Rightarrow> 'v option \<Rightarrow> bool" where
  "MapEntry_error D m_entry_sp =
     (case m_entry_sp of None \<Rightarrow> True | Some v \<Rightarrow> vo_GetErrorFail D v)"

definition MapEntry_null :: "('v, 'ty) debugger \<Rightarrow> 'v option \<Rightarrow> bool" where
  "MapEntry_null D m_entry_sp = (MapEntry_value D m_entry_sp = 0)"

section \<open>MapIterator (lines 82 to 163)\<close>

record 'v MapIterator =
  m_entry :: "'v option"
  m_max_depth :: nat
  m_error :: bool

text \<open>The constructor \<^verbatim>\<open>MapIterator(ValueObject *entry, size_t depth)\<close>.\<close>

definition MapIterator_new :: "'v option \<Rightarrow> nat \<Rightarrow> 'v MapIterator" where
  "MapIterator_new entry depth = \<lparr>m_entry = entry, m_max_depth = depth, m_error = False\<rparr>"

definition is_left_child :: "('v, 'ty) debugger \<Rightarrow> 'v option \<Rightarrow> bool" where
  "is_left_child D x =
     (if MapEntry_null D x then False
      else (let rhs = MapEntry_parent D x;
                rhs = MapEntry_left D rhs
            in MapEntry_value D x = MapEntry_value D rhs))"

text \<open>
  The loop of \<^verbatim>\<open>tree_min\<close> (lines 138 to 148), from the values of \<^verbatim>\<open>steps\<close>, \<^verbatim>\<open>x\<close> and
  \<^verbatim>\<open>left\<close> (here \<open>xleft\<close>) at its head. It gives the value of \<^verbatim>\<open>steps\<close> when the function returns, the
  entry the function returns and the value of \<^verbatim>\<open>m_error\<close> then (\<open>err\<close> is its value
  before).
\<close>

function tree_min_loop ::
  "('v, 'ty) debugger \<Rightarrow> nat \<Rightarrow> bool \<Rightarrow> nat \<Rightarrow> 'v option \<Rightarrow> 'v option
     \<Rightarrow> nat \<times> 'v option \<times> bool" where
  "tree_min_loop D max_depth err steps x xleft =
     (if \<not> MapEntry_null D xleft then
        if MapEntry_error D xleft then (steps, None, True)
        else (let x' = xleft;
                  left' = MapEntry_left D x';
                  steps' = steps + 1
              in if steps' > max_depth then (steps', None, err)
                 else tree_min_loop D max_depth err steps' x' left')
      else (steps, x, err))"
  by pat_completeness auto
termination
  by (relation "measure (\<lambda>(D, max_depth, err, steps, x, xleft). Suc max_depth - steps)") auto

declare tree_min_loop.simps [simp del]

definition tree_min ::
  "('v, 'ty) debugger \<Rightarrow> 'v MapIterator \<Rightarrow> 'v option \<Rightarrow> 'v option \<times> 'v MapIterator" where
  "tree_min D it x =
     (if MapEntry_null D x then (None, it)
      else (let xleft = MapEntry_left D x;
                (steps, r, err) = tree_min_loop D (m_max_depth it) (m_error it) 0 x xleft
            in (r, it\<lparr>m_error := err\<rparr>)))"

text \<open>
  The loop of \<^verbatim>\<open>next\<close> (lines 117 to 128), from the value of \<^verbatim>\<open>steps\<close> and the iterator
  at its head. It gives the value of \<^verbatim>\<open>steps\<close> when the loop is left, whether it was left
  by one of the two \<^verbatim>\<open>return\<close> statements inside it, and the iterator then.
\<close>

function next_loop ::
  "('v, 'ty) debugger \<Rightarrow> nat \<Rightarrow> 'v MapIterator \<Rightarrow> nat \<times> bool \<times> 'v MapIterator" where
  "next_loop D steps it =
     (if \<not> is_left_child D (m_entry it) then
        if MapEntry_error D (m_entry it) then (steps, True, it\<lparr>m_error := True\<rparr>)
        else (let it' = it\<lparr>m_entry := MapEntry_parent D (m_entry it)\<rparr>;
                  steps' = steps + 1
              in if steps' > m_max_depth it' then (steps', True, it'\<lparr>m_entry := None\<rparr>)
                 else next_loop D steps' it')
      else (steps, False, it))"
  by pat_completeness auto
termination
  by (relation "measure (\<lambda>(D, steps, it). Suc (m_max_depth it) - steps)") auto

declare next_loop.simps [simp del]

definition MapIterator_next :: "('v, 'ty) debugger \<Rightarrow> 'v MapIterator \<Rightarrow> 'v MapIterator" where
  "MapIterator_next D it =
     (if MapEntry_null D (m_entry it) then it
      else (let xright = MapEntry_right D (m_entry it)
            in if \<not> MapEntry_null D xright then
                 (let (r, it') = tree_min D it xright in it'\<lparr>m_entry := r\<rparr>)
               else (let (steps, returned, it') = next_loop D 0 it
                     in if returned then it'
                        else it'\<lparr>m_entry := MapEntry_parent D (m_entry it')\<rparr>)))"

text \<open>
  The loop of \<^verbatim>\<open>advance\<close> (lines 96 to 101), from the values of \<^verbatim>\<open>count\<close> and \<^verbatim>\<open>steps\<close>
  and the iterator at its head. It gives the value of \<^verbatim>\<open>steps\<close> when the function returns,
  the pointer it returns and the iterator then.
\<close>

fun advance_loop ::
  "('v, 'ty) debugger \<Rightarrow> nat \<Rightarrow> nat \<Rightarrow> 'v MapIterator \<Rightarrow> nat \<times> 'v option \<times> 'v MapIterator" where
  "advance_loop D 0 steps it = (steps, m_entry it, it)"
| "advance_loop D (Suc count) steps it =
     (let it' = MapIterator_next D it;
          steps' = steps + 1
      in if m_error it' \<or> MapEntry_null D (m_entry it') \<or> steps' > m_max_depth it'
         then (steps', None, it')
         else advance_loop D count steps' it')"

definition MapIterator_advance ::
  "('v, 'ty) debugger \<Rightarrow> 'v MapIterator \<Rightarrow> nat \<Rightarrow> 'v option \<times> 'v MapIterator" where
  "MapIterator_advance D it count =
     (if m_error it then (None, it)
      else (let (steps, r, it') = advance_loop D count 0 it in (r, it')))"

section \<open>LibcxxStdMapSyntheticFrontEnd (lines 167 to 210 and 235 to 457)\<close>

record ('v, 'ty) LibcxxStdMapSyntheticFrontEnd =
  m_backend :: 'v
  m_tree :: "'v option"
  m_root_node :: "'v option"
  m_element_type :: "'ty option"
  m_skip_size :: "32 word"
  m_count :: "64 word"
  m_iterators :: "nat \<rightharpoonup> 'v MapIterator"

text \<open>
  \<^verbatim>\<open>CalculateNumChildren\<close> returns an \<^verbatim>\<open>llvm::Expected<uint32_t>\<close> that is never an
  error, built from the \<^verbatim>\<open>size_t\<close> field \<open>m_count\<close>: the conversion keeps the low 32
  bits. \<^verbatim>\<open>CalculateNumChildrenIgnoringErrors\<close>, of the base class, gives the value of a
  result that is not an error.
\<close>

definition CalculateNumChildren ::
  "('v, 'ty) debugger \<Rightarrow> ('v, 'ty) LibcxxStdMapSyntheticFrontEnd
     \<Rightarrow> 32 word \<times> ('v, 'ty) LibcxxStdMapSyntheticFrontEnd" where
  "CalculateNumChildren D s =
     (if m_count s \<noteq> UINT32_MAX then (ucast (m_count s), s)
      else case m_tree s of
        None \<Rightarrow> (0, s)
      | Some tree \<Rightarrow>
          (case vo_GetChildMemberWithName D tree ''__pair3_'' of
             None \<Rightarrow> (0, s)
           | Some size_node \<Rightarrow>
               (case GetFirstValueOfLibCXXCompressedPair D size_node of
                  None \<Rightarrow> (0, s)
                | Some size_node' \<Rightarrow>
                    (let s' = s\<lparr>m_count := GetValueAsUnsigned D size_node' 0\<rparr>
                     in (ucast (m_count s'), s')))))"

definition CalculateNumChildrenIgnoringErrors ::
  "('v, 'ty) debugger \<Rightarrow> ('v, 'ty) LibcxxStdMapSyntheticFrontEnd
     \<Rightarrow> 32 word \<times> ('v, 'ty) LibcxxStdMapSyntheticFrontEnd" where
  "CalculateNumChildrenIgnoringErrors D s = CalculateNumChildren D s"

text \<open>
  \<^verbatim>\<open>GetDataType\<close> dereferences \<open>m_root_node\<close> without a test: its only caller,
  \<^verbatim>\<open>GetKeyValuePair\<close>, runs after \<^verbatim>\<open>GetChildAtIndex\<close> has found the pointer not null. The
  branch of a null \<open>m_root_node\<close> is written as a failure and is never taken.
\<close>

definition GetDataType ::
  "('v, 'ty) debugger \<Rightarrow> ('v, 'ty) LibcxxStdMapSyntheticFrontEnd
     \<Rightarrow> bool \<times> ('v, 'ty) LibcxxStdMapSyntheticFrontEnd" where
  "GetDataType D s =
     (if m_element_type s \<noteq> None then (True, s)
      else (let s = s\<lparr>m_element_type := None\<rparr> in
        case m_root_node s of
          None \<Rightarrow> (False, s)
        | Some root \<Rightarrow>
            (case vo_Dereference D root of (deref, error_fail) \<Rightarrow>
               if deref = None \<or> error_fail then (False, s)
               else (case vo_GetChildAtNamePath D (m_backend s) [''__tree_'', ''__pair3_''] of
                  None \<Rightarrow> (False, s)
                | Some deref \<Rightarrow>
                    (let t = Option.bind
                               (Option.bind (vo_GetCompilerType D deref)
                                  (\<lambda>t. ty_GetTypeTemplateArgument D t 1))
                               (\<lambda>t. ty_GetTypeTemplateArgument D t 1)
                     in case t of
                          Some t1 \<Rightarrow>
                            (let t = ty_GetFieldAtIndex D t1 0;
                                 t = Option.bind t (ty_GetTypedefedType D);
                                 s = s\<lparr>m_element_type := t\<rparr>
                             in (m_element_type s \<noteq> None, s))
                        | None \<Rightarrow>
                            (let t = Option.bind (vo_GetCompilerType D (m_backend s))
                                       (\<lambda>t. ty_GetTypeTemplateArgument D t 0);
                                 s = s\<lparr>m_element_type := t\<rparr>
                             in (m_element_type s \<noteq> None, s)))))))"

definition GetValueOffset ::
  "('v, 'ty) debugger \<Rightarrow> ('v, 'ty) LibcxxStdMapSyntheticFrontEnd \<Rightarrow> 'v option
     \<Rightarrow> ('v, 'ty) LibcxxStdMapSyntheticFrontEnd" where
  "GetValueOffset D s node =
     (if m_skip_size s \<noteq> UINT32_MAX then s
      else case node of
        None \<Rightarrow> s
      | Some n \<Rightarrow>
          (case ty_PayloadByteOffset D (vo_GetCompilerType D n) (m_element_type s) of
             None \<Rightarrow> s
           | Some child_byte_offset \<Rightarrow> s\<lparr>m_skip_size := child_byte_offset\<rparr>))"

text \<open>The name \<^verbatim>\<open>"[%" PRIu64 "]"\<close> of the child of index \<open>idx\<close>.\<close>

fun decimal :: "nat \<Rightarrow> string" where
  "decimal n =
     (if n < 10 then [char_of (48 + n)]
      else decimal (n div 10) @ [char_of (48 + n mod 10)])"

declare decimal.simps [simp del]

definition child_name :: "32 word \<Rightarrow> string" where
  "child_name idx = ''['' @ decimal (unat idx) @ '']''"

text \<open>
  Lines 413 to 434 of \<^verbatim>\<open>GetChildAtIndex\<close>: the pair is cloned under the child's name, and
  a clone that wraps the pair in a member \<^verbatim>\<open>__cc_\<close> or \<^verbatim>\<open>__cc\<close> is replaced by a clone
  of that member.
\<close>

definition potential_child :: "('v, 'ty) debugger \<Rightarrow> 'v \<Rightarrow> string \<Rightarrow> 'v option" where
  "potential_child D key_val_sp name =
     (case vo_Clone D key_val_sp name of
        None \<Rightarrow> None
      | Some potential_child_sp \<Rightarrow>
          (if vo_GetNumChildrenIgnoringErrors D potential_child_sp = 1 then
             (case vo_GetChildAtIndex D potential_child_sp 0 of
                Some child0_sp \<Rightarrow>
                  if vo_GetName D child0_sp = ''__cc_'' \<or> vo_GetName D child0_sp = ''__cc''
                  then vo_Clone D child0_sp name
                  else Some potential_child_sp
              | None \<Rightarrow> Some potential_child_sp)
           else if vo_GetNumChildrenIgnoringErrors D potential_child_sp = 2 then
             (case (vo_GetChildAtIndex D potential_child_sp 0,
                    vo_GetChildAtIndex D potential_child_sp 1) of
                (Some child0_sp, Some child1_sp) \<Rightarrow>
                  if (vo_GetName D child0_sp = ''__cc_'' \<or> vo_GetName D child0_sp = ''__cc'')
                     \<and> vo_GetName D child1_sp = ''__nc''
                  then vo_Clone D child0_sp name
                  else Some potential_child_sp
              | _ \<Rightarrow> Some potential_child_sp)
           else Some potential_child_sp))"

text \<open>
  \<^verbatim>\<open>GetKeyValuePair\<close> and \<^verbatim>\<open>GetChildAtIndex\<close> call each other: for an index above 0
  whose payload offset is not known yet, \<^verbatim>\<open>GetKeyValuePair\<close> calls \<^verbatim>\<open>GetChildAtIndex(0)\<close>
  for the sake of its effect on the front end. Both give their result and the front
  end after the call. The local variable \<^verbatim>\<open>iterator\<close> is chosen and advanced before that
  inner call, and stored in \<open>m_iterators\<close> after it.
\<close>

function GetKeyValuePair ::
    "('v, 'ty) debugger \<Rightarrow> ('v, 'ty) LibcxxStdMapSyntheticFrontEnd \<Rightarrow> nat \<Rightarrow> nat
       \<Rightarrow> 'v option \<times> ('v, 'ty) LibcxxStdMapSyntheticFrontEnd"
  and GetChildAtIndex ::
    "('v, 'ty) debugger \<Rightarrow> ('v, 'ty) LibcxxStdMapSyntheticFrontEnd \<Rightarrow> 32 word
       \<Rightarrow> 'v option \<times> ('v, 'ty) LibcxxStdMapSyntheticFrontEnd" where
  "GetKeyValuePair D s idx max_depth =
     (case (if idx > 0 then
              (case m_iterators s (idx - 1) of
                 Some cached_iterator \<Rightarrow> (cached_iterator, 1)
               | None \<Rightarrow> (MapIterator_new (m_root_node s) max_depth, idx))
            else (MapIterator_new (m_root_node s) max_depth, idx)) of
        (iterator, actual_advance) \<Rightarrow>
     (case MapIterator_advance D iterator actual_advance of
        (None, iterator) \<Rightarrow> (None, s)
      | (Some iterated_sp, iterator) \<Rightarrow>
     (case GetDataType D s of
        (False, s) \<Rightarrow> (None, s)
      | (True, s) \<Rightarrow>
          if \<not> idx > 0 then
            (case vo_Dereference D iterated_sp of
               (None, error_fail) \<Rightarrow> (None, s)
             | (Some iterated_sp, error_fail) \<Rightarrow>
                 if error_fail then (None, s)
                 else (let s = GetValueOffset D s (Some iterated_sp) in
                   case vo_GetSyntheticChildAtOffset D iterated_sp (unat (m_skip_size s))
                          (m_element_type s) of
                     None \<Rightarrow> (None, s)
                   | Some iterated_sp \<Rightarrow>
                       (Some iterated_sp, s\<lparr>m_iterators := (m_iterators s)(idx \<mapsto> iterator)\<rparr>)))
          else
            (case (if m_skip_size s = UINT32_MAX then snd (GetChildAtIndex D s 0) else s) of s \<Rightarrow>
               if m_skip_size s = UINT32_MAX then (None, s)
               else (case vo_GetSyntheticChildAtOffset D iterated_sp (unat (m_skip_size s))
                            (m_element_type s) of
                       None \<Rightarrow> (None, s)
                     | Some iterated_sp \<Rightarrow>
                         (Some iterated_sp,
                          s\<lparr>m_iterators := (m_iterators s)(idx \<mapsto> iterator)\<rparr>))))))"
| "GetChildAtIndex D s idx =
     (case CalculateNumChildrenIgnoringErrors D s of (num_children, s) \<Rightarrow>
        if idx \<ge> num_children then (None, s)
        else if m_tree s = None \<or> m_root_node s = None then (None, s)
        else (case GetKeyValuePair D s (unat idx) (unat num_children) of
                (None, s) \<Rightarrow> (None, s\<lparr>m_tree := None\<rparr>)
              | (Some key_val_sp, s) \<Rightarrow> (potential_child D key_val_sp (child_name idx), s)))"
  by pat_completeness auto
termination
  by (relation "measure (\<lambda>x. case x of
          Inl (D, s, idx, max_depth) \<Rightarrow> (if idx > 0 then 2 else 0)
        | Inr (D, s, idx) \<Rightarrow> (if idx \<noteq> 0 then 3 else 1))")
     (auto simp: unat_gt_0)

declare GetKeyValuePair.simps [simp del]
declare GetChildAtIndex.simps [simp del]

definition Update ::
  "('v, 'ty) debugger \<Rightarrow> ('v, 'ty) LibcxxStdMapSyntheticFrontEnd
     \<Rightarrow> ('v, 'ty) LibcxxStdMapSyntheticFrontEnd" where
  "Update D s =
     (let s = s\<lparr>m_count := UINT32_MAX\<rparr>;
          s = s\<lparr>m_tree := None, m_root_node := None\<rparr>;
          s = s\<lparr>m_iterators := Map.empty\<rparr>;
          s = s\<lparr>m_tree := vo_GetChildMemberWithName D (m_backend s) ''__tree_''\<rparr>
      in case m_tree s of
           None \<Rightarrow> s
         | Some tree \<Rightarrow> s\<lparr>m_root_node := vo_GetChildMemberWithName D tree ''__begin_node_''\<rparr>)"

text \<open>The constructor, for a value object \<^verbatim>\<open>valobj_sp\<close> that is not null.\<close>

definition LibcxxStdMapSyntheticFrontEnd_new ::
  "('v, 'ty) debugger \<Rightarrow> 'v \<Rightarrow> ('v, 'ty) LibcxxStdMapSyntheticFrontEnd" where
  "LibcxxStdMapSyntheticFrontEnd_new D valobj =
     Update D \<lparr>m_backend = valobj, m_tree = None, m_root_node = None, m_element_type = None,
               m_skip_size = UINT32_MAX, m_count = UINT32_MAX, m_iterators = Map.empty\<rparr>"

section \<open>LibCxxMapIteratorSyntheticFrontEnd (lines 212 to 231 and 465 to 622)\<close>

text \<open>
  The further services \<^verbatim>\<open>LibCxxMapIteratorSyntheticFrontEnd::Update\<close> calls: the target
  and its process, expression paths, the struct of a tree node built by Clang's type
  system, a read of the process's memory and a value object made from the bytes read.
  \<^verbatim>\<open>LLDB_INVALID_ADDRESS\<close> is a macro of lldb's headers.
\<close>

record ('v, 'ty) target =
  \<comment> \<open>\<^verbatim>\<open>v.GetSP()\<close>\<close>
  vo_GetSP :: "'v \<Rightarrow> 'v option"
  \<comment> \<open>whether \<^verbatim>\<open>v->GetTargetSP()\<close> is not null\<close>
  vo_GetTargetSP :: "'v \<Rightarrow> bool"
  \<comment> \<open>\<^verbatim>\<open>v->GetValueForExpressionPath(path, ...)\<close> without synthetic children\<close>
  vo_GetValueForExpressionPath :: "'v \<Rightarrow> string \<Rightarrow> 'v option"
  LLDB_INVALID_ADDRESS :: "64 word"
  \<comment> \<open>the struct \<^verbatim>\<open>{ptr0, ptr1, ptr2, cw, payload}\<close> around a pair type, made by
    \<^verbatim>\<open>CreateStructForIdentifier\<close>; \<open>None\<close> when the type system is not Clang's\<close>
  ty_TreeNodeType :: "'ty \<Rightarrow> 'ty option option"
  \<comment> \<open>\<^verbatim>\<open>t.GetByteSize(nullptr)\<close>\<close>
  ty_GetByteSize :: "'ty option \<Rightarrow> nat option"
  \<comment> \<open>\<^verbatim>\<open>process_sp->ReadMemory(addr, buffer, size, error)\<close>: the bytes read, or \<open>None\<close> when
    \<^verbatim>\<open>error.Fail()\<close>; the process is assumed to be live\<close>
  ReadMemory :: "64 word \<Rightarrow> nat \<Rightarrow> 8 word list option"
  \<comment> \<open>\<^verbatim>\<open>CreateValueObjectFromData("pair", extractor, ..., type)\<close>\<close>
  CreateValueObjectFromData :: "8 word list \<Rightarrow> 'ty option \<Rightarrow> 'v option"

record 'v LibCxxMapIteratorSyntheticFrontEnd =
  mi_backend :: 'v
  m_pair_ptr :: "'v option"
  m_pair_sp :: "'v option"

definition LibCxxMapIterator_Update ::
  "('v, 'ty) debugger \<Rightarrow> ('v, 'ty) target \<Rightarrow> 'v LibCxxMapIteratorSyntheticFrontEnd
     \<Rightarrow> 'v LibCxxMapIteratorSyntheticFrontEnd" where
  "LibCxxMapIterator_Update D T s =
     (let s = s\<lparr>m_pair_sp := None\<rparr>;
          s = s\<lparr>m_pair_ptr := None\<rparr>
      in case vo_GetSP T (mi_backend s) of
        None \<Rightarrow> s
      | Some valobj_sp \<Rightarrow>
          if \<not> vo_GetTargetSP T valobj_sp then s
          else (let s = s\<lparr>m_pair_ptr :=
                           vo_GetValueForExpressionPath T valobj_sp ''.__i_.__ptr_->__value_''\<rparr>
            in if m_pair_ptr s = None then
              (let s = s\<lparr>m_pair_ptr := vo_GetValueForExpressionPath T valobj_sp ''.__i_.__ptr_''\<rparr>
               in case m_pair_ptr s of
                 None \<Rightarrow> s
               | Some pair_ptr \<Rightarrow>
                   (case vo_GetChildMemberWithName D valobj_sp ''__i_'' of
                      None \<Rightarrow> s\<lparr>m_pair_ptr := None\<rparr>
                    | Some i \<Rightarrow>
                        (let pair_type = Option.bind (vo_GetCompilerType D i)
                                           (\<lambda>t. ty_GetTypeTemplateArgument D t 0);
                             pair_type = Option.bind pair_type (\<lambda>t. ty_GetFieldAtIndex D t 0)
                         in case pair_type of
                           None \<Rightarrow> s\<lparr>m_pair_ptr := None\<rparr>
                         | Some pair_ty \<Rightarrow>
                             (let addr = GetValueAsUnsigned D pair_ptr (LLDB_INVALID_ADDRESS T);
                                  s = s\<lparr>m_pair_ptr := None\<rparr>
                              in if addr \<noteq> 0 \<and> addr \<noteq> LLDB_INVALID_ADDRESS T then
                                   (case ty_TreeNodeType T pair_ty of
                                      None \<Rightarrow> s
                                    | Some tree_node_type \<Rightarrow>
                                        (case ty_GetByteSize T tree_node_type of
                                           None \<Rightarrow> s
                                         | Some byte_size \<Rightarrow>
                                             (case ReadMemory T addr byte_size of
                                                None \<Rightarrow> s
                                              | Some buffer \<Rightarrow>
                                                  (case CreateValueObjectFromData T buffer
                                                          tree_node_type of
                                                     None \<Rightarrow> s
                                                   | Some pair_sp \<Rightarrow>
                                                       s\<lparr>m_pair_sp :=
                                                           vo_GetChildAtIndex D pair_sp 4\<rparr>))))
                                 else s))))
            else s))"

definition LibCxxMapIterator_GetChildAtIndex ::
  "('v, 'ty) debugger \<Rightarrow> 'v LibCxxMapIteratorSyntheticFrontEnd \<Rightarrow> 32 word \<Rightarrow> 'v option" where
  "LibCxxMapIterator_GetChildAtIndex D s idx =
     (case m_pair_ptr s of
        Some pair_ptr \<Rightarrow> vo_GetChildAtIndex D pair_ptr idx
      | None \<Rightarrow>
          (case m_pair_sp s of
             Some pair_sp \<Rightarrow> vo_GetChildAtIndex D pair_sp idx
           | None \<Rightarrow> None))"

section \<open>The paths a cursor follows\<close>

text \<open>
  \<open>climb D e k\<close> is the entry \<open>k\<close> parent links above \<open>e\<close>, \<open>descend D x k\<close> the entry \<open>k\<close>
  left links below \<open>x\<close>. The upward walk of \<^verbatim>\<open>next\<close> has climbed \<open>k\<close> times from \<open>e\<close> when
  none of the first \<open>k\<close> entries on the way is a left child or in error; the descent of
  \<^verbatim>\<open>tree_min\<close> has stepped \<open>k\<close> times down from \<open>x\<close> when the first \<open>k\<close> entries below \<open>x\<close>
  are neither null nor in error.
\<close>

definition climb :: "('v, 'ty) debugger \<Rightarrow> 'v option \<Rightarrow> nat \<Rightarrow> 'v option" where
  "climb D e k = (MapEntry_parent D ^^ k) e"

definition descend :: "('v, 'ty) debugger \<Rightarrow> 'v option \<Rightarrow> nat \<Rightarrow> 'v option" where
  "descend D x k = (MapEntry_left D ^^ k) x"

definition climbed :: "('v, 'ty) debugger \<Rightarrow> 'v option \<Rightarrow> nat \<Rightarrow> bool" where
  "climbed D e k =
     (\<forall>j<k. \<not> is_left_child D (climb D e j) \<and> \<not> MapEntry_error D (climb D e j))"

definition descended :: "('v, 'ty) debugger \<Rightarrow> 'v option \<Rightarrow> nat \<Rightarrow> bool" where
  "descended D x k =
     (\<forall>j<k. \<not> MapEntry_null D (descend D x (Suc j)) \<and> \<not> MapEntry_error D (descend D x (Suc j)))"

text \<open>
  The upward walk meets an access error when, within its budget, it has climbed to an
  entry that is not a left child and is in error; the descent meets one when, within
  its budget, it has stepped down to an entry whose left entry is not null and is in error.
\<close>

definition climb_meets_error :: "('v, 'ty) debugger \<Rightarrow> nat \<Rightarrow> 'v option \<Rightarrow> bool" where
  "climb_meets_error D max_depth e =
     (\<exists>k\<le>max_depth. climbed D e k \<and> \<not> is_left_child D (climb D e k)
                      \<and> MapEntry_error D (climb D e k))"

definition descent_meets_error :: "('v, 'ty) debugger \<Rightarrow> nat \<Rightarrow> 'v option \<Rightarrow> bool" where
  "descent_meets_error D max_depth x =
     (\<exists>k\<le>max_depth. descended D x k \<and> \<not> MapEntry_null D (descend D x (Suc k))
                      \<and> MapEntry_error D (descend D x (Suc k)))"

section \<open>A sample process\<close>

text \<open>
  A debugger over a small process image, for concrete runs: the memory is a partial map
  from addresses to the pointer-sized cells that can be read, a tree node is three
  such cells (left, right, parent) and a cell for its colour, followed at offset 32 by
  its pair, whose first cell is the key and whose second cell is the value. A pointer read from a cell that cannot be read is a value object in
  error, with no value.
\<close>

datatype vobj =
    Backend | TreeV | Pair3V | SizeV
  | Ptr "64 word"
  | Unread "64 word"
  | NodeV "64 word"
  | PairV "64 word"
  | FieldV "64 word" nat
  | CloneV vobj string
  | IterV "64 word"
  | TreeIterV "64 word"
  | DataV "8 word list"

datatype ctype =
  MapT | NodePtrT | NodeT | Pair3T | CompareT | ValueT | PairTypedefT | PairT | KeyT | TreeIterT

definition process_debugger ::
  "(64 word \<rightharpoonup> 64 word) \<Rightarrow> 64 word \<Rightarrow> 64 word \<Rightarrow> (vobj, ctype) debugger" where
  "process_debugger mem begin_node count =
     \<lparr>vo_GetAddressByteSize = 8,
      vo_GetCompilerType =
        (\<lambda>v. case v of Backend \<Rightarrow> Some MapT | Pair3V \<Rightarrow> Some Pair3T | Ptr a \<Rightarrow> Some NodePtrT
              | Unread a \<Rightarrow> Some NodePtrT | NodeV a \<Rightarrow> Some NodeT
              | TreeIterV a \<Rightarrow> Some TreeIterT | _ \<Rightarrow> None),
      vo_GetSyntheticChildAtOffset =
        (\<lambda>v off ty. case v of
             Ptr a \<Rightarrow>
               if ty = Some NodePtrT then
                 Some (case mem (a + of_nat off) of
                         Some x \<Rightarrow> Ptr x
                       | None \<Rightarrow> Unread (a + of_nat off))
               else if ty = Some PairT then Some (PairV (a + of_nat off))
               else None
           | Unread a \<Rightarrow> if ty = Some NodePtrT then Some (Unread a) else None
           | NodeV a \<Rightarrow> if ty = Some PairT then Some (PairV (a + of_nat off)) else None
           | _ \<Rightarrow> None),
      vo_ResolveValue = (\<lambda>v. case v of Ptr a \<Rightarrow> Some a | SizeV \<Rightarrow> Some count | _ \<Rightarrow> None),
      vo_GetErrorFail = (\<lambda>v. case v of Unread a \<Rightarrow> True | _ \<Rightarrow> False),
      vo_GetChildMemberWithName =
        (\<lambda>v name. case v of
             Backend \<Rightarrow> if name = ''__tree_'' then Some TreeV else None
           | TreeV \<Rightarrow> if name = ''__begin_node_'' then Some (Ptr begin_node)
                      else if name = ''__pair3_'' then Some Pair3V else None
           | IterV a \<Rightarrow> if name = ''__i_'' then Some (TreeIterV a) else None
           | _ \<Rightarrow> None),
      vo_GetChildAtNamePath =
        (\<lambda>v names. if v = Backend \<and> names = [''__tree_'', ''__pair3_''] then Some Pair3V
                    else None),
      GetFirstValueOfLibCXXCompressedPair = (\<lambda>v. if v = Pair3V then Some SizeV else None),
      vo_Dereference =
        (\<lambda>v. case v of
             Ptr a \<Rightarrow> if mem a \<noteq> None then (Some (NodeV a), False) else (None, True)
           | _ \<Rightarrow> (None, True)),
      vo_Clone = (\<lambda>v name. Some (CloneV v name)),
      vo_GetNumChildrenIgnoringErrors =
        (\<lambda>v. case v of CloneV (PairV a) n \<Rightarrow> 2 | PairV a \<Rightarrow> 2 | _ \<Rightarrow> 0),
      vo_GetChildAtIndex =
        (\<lambda>v i. case v of
             CloneV (PairV a) n \<Rightarrow> if i < 2 then Some (FieldV a (unat i)) else None
           | PairV a \<Rightarrow> if i < 2 then Some (FieldV a (unat i)) else None
           | DataV bytes \<Rightarrow> if i = 4 then Some (DataV (drop 32 bytes)) else None
           | _ \<Rightarrow> None),
      vo_GetName =
        (\<lambda>v. case v of
             FieldV a i \<Rightarrow> if i = 0 then ''first'' else ''second''
           | CloneV w n \<Rightarrow> n
           | _ \<Rightarrow> []),
      ty_GetTypeTemplateArgument =
        (\<lambda>t i. if t = Pair3T \<and> i = 1 then Some CompareT
                else if t = CompareT \<and> i = 1 then Some ValueT
                else if t = MapT \<and> i = 0 then Some KeyT
                else if t = TreeIterT \<and> i = 0 then Some ValueT
                else None),
      ty_GetFieldAtIndex = (\<lambda>t i. if t = ValueT \<and> i = 0 then Some PairTypedefT else None),
      ty_GetTypedefedType = (\<lambda>t. if t = PairTypedefT then Some PairT else None),
      ty_PayloadByteOffset = (\<lambda>node_ty elem_ty. if elem_ty = Some PairT then Some 32 else None)\<rparr>"

definition payload_key :: "(64 word \<rightharpoonup> 64 word) \<Rightarrow> vobj option \<Rightarrow> 64 word option" where
  "payload_key mem r = (case r of Some (CloneV (PairV a) n) \<Rightarrow> mem a | _ \<Rightarrow> None)"

definition map3_memory :: "64 word \<rightharpoonup> 64 word" where
  "map3_memory = map_of
     [(0x1000, 0x2000),
      (0x2000, 0x3000), (0x2008, 0x4000), (0x2010, 0x1000), (0x2018, 1), (0x2020, 2), (0x2028, 20),
      (0x3000, 0), (0x3008, 0), (0x3010, 0x2000), (0x3018, 0), (0x3020, 1), (0x3028, 10),
      (0x4000, 0), (0x4008, 0), (0x4010, 0x2000), (0x4018, 0), (0x4020, 3), (0x4028, 30)]"

definition map3 :: "(vobj, ctype) debugger" where
  "map3 = process_debugger map3_memory 0x3000 3"

definition map3_view :: "(vobj, ctype) LibcxxStdMapSyntheticFrontEnd" where
  "map3_view = LibcxxStdMapSyntheticFrontEnd_new map3 Backend"

text \<open>
  The target of the sample process: an iterator \<open>IterV a\<close> holds the address \<open>a\<close>, no
  expression path reaches the pair directly, and a read gives the bytes of the cells
  read, the lowest byte first.
\<close>

definition cell_bytes :: "64 word \<Rightarrow> 8 word list" where
  "cell_bytes w = map (\<lambda>i. ucast (drop_bit (8 * i) w)) [0..<8]"

definition read_cells :: "(64 word \<rightharpoonup> 64 word) \<Rightarrow> 64 word \<Rightarrow> nat \<Rightarrow> 8 word list option" where
  "read_cells mem addr n =
     (if \<forall>i \<in> set [0..<n div 8]. mem (addr + of_nat (8 * i)) \<noteq> None
      then Some (concat (map (\<lambda>i. cell_bytes (the (mem (addr + of_nat (8 * i))))) [0..<n div 8]))
      else None)"

definition process_target :: "(64 word \<rightharpoonup> 64 word) \<Rightarrow> (vobj, ctype) target" where
  "process_target mem =
     \<lparr>vo_GetSP = Some,
      vo_GetTargetSP = (\<lambda>v. True),
      vo_GetValueForExpressionPath =
        (\<lambda>v path. case v of
             IterV a \<Rightarrow> if path = ''.__i_.__ptr_'' then Some (Ptr a) else None
           | _ \<Rightarrow> None),
      LLDB_INVALID_ADDRESS = - 1,
      ty_TreeNodeType = (\<lambda>t. Some (Some NodeT)),
      ty_GetByteSize = (\<lambda>t. if t = Some NodeT then Some 48 else None),
      ReadMemory = read_cells mem,
      CreateValueObjectFromData = (\<lambda>bytes t. Some (DataV bytes))\<rparr>"

text \<open>Two nodes whose parent links point at each other, neither a left child.\<close>

definition cycle_memory :: "64 word \<rightharpoonup> 64 word" where
  "cycle_memory = map_of
     [(0x3000, 0), (0x3008, 0), (0x3010, 0x4000), (0x3020, 1),
      (0x4000, 0), (0x4008, 0), (0x4010, 0x3000), (0x4020, 2)]"

definition cycle2 :: "(vobj, ctype) debugger" where
  "cycle2 = process_debugger cycle_memory 0x3000 2"

text \<open>A node whose parent link cannot be read.\<close>

definition torn_memory :: "64 word \<rightharpoonup> 64 word" where
  "torn_memory = map_of [(0x3000, 0), (0x3008, 0), (0x3020, 1)]"

definition torn2 :: "(vobj, ctype) debugger" where
  "torn2 = process_debugger torn_memory 0x3000 2"

text \<open>A node whose right child has a left link that cannot be read.\<close>

definition torn_left_memory :: "64 word \<rightharpoonup> 64 word" where
  "torn_left_memory = map_of
     [(0x3000, 0), (0x3008, 0x4000), (0x3010, 0), (0x3020, 1),
      (0x4008, 0), (0x4010, 0x3000), (0x4020, 2)]"

definition torn_left2 :: "(vobj, ctype) debugger" where
  "torn_left2 = process_debugger torn_left_memory 0x3000 2"

text \<open>A node whose right child and the left child of that one are each the left child of the other.\<close>

definition left_cycle_memory :: "64 word \<rightharpoonup> 64 word" where
  "left_cycle_memory = map_of
     [(0x3000, 0), (0x3008, 0x4000), (0x3010, 0), (0x3020, 1),
      (0x4000, 0x5000), (0x4008, 0), (0x4010, 0x3000), (0x4020, 3),
      (0x5000, 0x4000), (0x5008, 0), (0x5010, 0x4000), (0x5020, 2)]"

definition left_cycle2 :: "(vobj, ctype) debugger" where
  "left_cycle2 = process_debugger left_cycle_memory 0x3000 2"

text \<open>Two nodes whose right links point at each other, under a size field that reads 12.\<close>

definition right_cycle_memory :: "64 word \<rightharpoonup> 64 word" where
  "right_cycle_memory = map_of
     [(0x3000, 0), (0x3008, 0x4000), (0x3010, 0), (0x3020, 1),
      (0x4000, 0), (0x4008, 0x3000), (0x4010, 0x3000), (0x4020, 2)]"

definition right_cycle12 :: "(vobj, ctype) debugger" where
  "right_cycle12 = process_debugger right_cycle_memory 0x3000 12"

section \<open>What a front end shows of the container\<close>

text \<open>
  What a front end holds is compared with what the debugger gives for the state \<open>u\<close>
  that the last \<^verbatim>\<open>Update()\<close> left: the size field of the tree and the count read from
  it, the cursor a fresh walk from \<open>m_root_node\<close> reaches, the element type and the
  payload offset once they are resolved. A front end \<open>s\<close> is consistent with \<open>u\<close> when
  each of its fields is either as in \<open>u\<close> or holds that value, and each cached cursor is
  the one the fresh walk reaches. \<open>expected_child D u idx\<close> is then the child that
  \<^verbatim>\<open>GetChildAtIndex(idx)\<close> returns, whatever was asked before.
\<close>

definition size_field ::
  "('v, 'ty) debugger \<Rightarrow> ('v, 'ty) LibcxxStdMapSyntheticFrontEnd \<Rightarrow> 'v option" where
  "size_field D s =
     (case m_tree s of
        None \<Rightarrow> None
      | Some tree \<Rightarrow>
          (case vo_GetChildMemberWithName D tree ''__pair3_'' of
             None \<Rightarrow> None
           | Some pair3 \<Rightarrow> GetFirstValueOfLibCXXCompressedPair D pair3))"

definition size_value ::
  "('v, 'ty) debugger \<Rightarrow> ('v, 'ty) LibcxxStdMapSyntheticFrontEnd \<Rightarrow> 64 word option" where
  "size_value D s = map_option (\<lambda>n. GetValueAsUnsigned D n 0) (size_field D s)"

definition element_count ::
  "('v, 'ty) debugger \<Rightarrow> ('v, 'ty) LibcxxStdMapSyntheticFrontEnd \<Rightarrow> 32 word" where
  "element_count D s = (case size_value D s of None \<Rightarrow> 0 | Some n \<Rightarrow> ucast n)"

definition cursor_at ::
  "('v, 'ty) debugger \<Rightarrow> ('v, 'ty) LibcxxStdMapSyntheticFrontEnd \<Rightarrow> nat
     \<Rightarrow> 'v option \<times> 'v MapIterator" where
  "cursor_at D s idx =
     MapIterator_advance D (MapIterator_new (m_root_node s) (unat (element_count D s))) idx"

definition resolved_type ::
  "('v, 'ty) debugger \<Rightarrow> ('v, 'ty) LibcxxStdMapSyntheticFrontEnd \<Rightarrow> 'ty option" where
  "resolved_type D s = m_element_type (snd (GetDataType D s))"

definition resolved_skip ::
  "('v, 'ty) debugger \<Rightarrow> ('v, 'ty) LibcxxStdMapSyntheticFrontEnd \<Rightarrow> 32 word" where
  "resolved_skip D s =
     (case m_root_node s of
        None \<Rightarrow> m_skip_size s
      | Some root \<Rightarrow>
          (case vo_Dereference D root of
             (Some d, False) \<Rightarrow> m_skip_size (GetValueOffset D (snd (GetDataType D s)) (Some d))
           | _ \<Rightarrow> m_skip_size s))"

definition consistent ::
  "('v, 'ty) debugger \<Rightarrow> ('v, 'ty) LibcxxStdMapSyntheticFrontEnd
     \<Rightarrow> ('v, 'ty) LibcxxStdMapSyntheticFrontEnd \<Rightarrow> bool" where
  "consistent D u s \<longleftrightarrow>
     m_backend s = m_backend u \<and> m_root_node s = m_root_node u
     \<and> (m_tree s = None \<or> m_tree s = m_tree u)
     \<and> (m_count s = UINT32_MAX \<or> size_value D u = Some (m_count s))
     \<and> (m_element_type s = m_element_type u \<or> m_element_type s = resolved_type D u)
     \<and> (m_skip_size s = m_skip_size u \<or> m_skip_size s = resolved_skip D u)
     \<and> (\<forall>k c. m_iterators s k = Some c \<longrightarrow>
           k < unat (element_count D u) \<and> (\<exists>v. cursor_at D u k = (Some v, c)))"

definition expected_pair ::
  "('v, 'ty) debugger \<Rightarrow> ('v, 'ty) LibcxxStdMapSyntheticFrontEnd \<Rightarrow> nat \<Rightarrow> 'v option" where
  "expected_pair D u idx =
     (case fst (cursor_at D u idx) of
        None \<Rightarrow> None
      | Some h \<Rightarrow>
          if resolved_type D u = None then None
          else if idx = 0 then
            (case vo_Dereference D h of
               (Some d, False) \<Rightarrow>
                 vo_GetSyntheticChildAtOffset D d (unat (resolved_skip D u)) (resolved_type D u)
             | _ \<Rightarrow> None)
          else if resolved_skip D u = UINT32_MAX then None
          else vo_GetSyntheticChildAtOffset D h (unat (resolved_skip D u)) (resolved_type D u))"

definition expected_child ::
  "('v, 'ty) debugger \<Rightarrow> ('v, 'ty) LibcxxStdMapSyntheticFrontEnd \<Rightarrow> 32 word \<Rightarrow> 'v option" where
  "expected_child D u idx =
     (if idx \<ge> element_count D u \<or> m_root_node u = None then None
      else case expected_pair D u (unat idx) of
        None \<Rightarrow> None
      | Some p \<Rightarrow> potential_child D p (child_name idx))"

definition resolve_element_type ::
  "('v, 'ty) debugger \<Rightarrow> 'v option \<Rightarrow> 'v \<Rightarrow> 'ty option" where
  "resolve_element_type D root backend =
     (case root of
        None \<Rightarrow> None
      | Some r \<Rightarrow>
          (case vo_Dereference D r of (deref, error_fail) \<Rightarrow>
             if deref = None \<or> error_fail then None
             else (case vo_GetChildAtNamePath D backend [''__tree_'', ''__pair3_''] of
                None \<Rightarrow> None
              | Some pair3 \<Rightarrow>
                  (case Option.bind
                          (Option.bind (vo_GetCompilerType D pair3)
                             (\<lambda>t. ty_GetTypeTemplateArgument D t 1))
                          (\<lambda>t. ty_GetTypeTemplateArgument D t 1) of
                     Some t1 \<Rightarrow> Option.bind (ty_GetFieldAtIndex D t1 0) (ty_GetTypedefedType D)
                   | None \<Rightarrow>
                       Option.bind (vo_GetCompilerType D backend)
                         (\<lambda>t. ty_GetTypeTemplateArgument D t 0)))))"

definition skip_from :: "('v, 'ty) debugger \<Rightarrow> 32 word \<Rightarrow> 'ty option \<Rightarrow> 'ty option \<Rightarrow> 32 word" where
  "skip_from D k node_type element_type =
     (if k \<noteq> UINT32_MAX then k
      else case ty_PayloadByteOffset D node_type element_type of None \<Rightarrow> k | Some off \<Rightarrow> off)"

inductive reachable ::
  "('v, 'ty) debugger \<Rightarrow> ('v, 'ty) LibcxxStdMapSyntheticFrontEnd
     \<Rightarrow> ('v, 'ty) LibcxxStdMapSyntheticFrontEnd \<Rightarrow> bool"
  for D :: "('v, 'ty) debugger" where
    refreshed: "reachable D (Update D s0) (Update D s0)"
  | asked: "reachable D u s \<Longrightarrow> reachable D u (snd (GetChildAtIndex D s idx))"
  | counted: "reachable D u s \<Longrightarrow> reachable D u (snd (CalculateNumChildren D s))"


section \<open>A well-formed tree in the inspected process\<close>

text \<open>
  A tree of node addresses \<open>t\<close> lies in the inspected process when the three links of
  each node, given by \<open>L\<close>, \<open>R\<close> and \<open>P\<close>, are those of \<open>t\<close> (a missing child is the
  null address, the parent of the root is \<open>p\<close>), and when every value object that is a
  pointer to a node, readable and not in error, has a left, a right and a parent entry
  that are pointers to the addresses in these links. Several value objects can point to
  the same node, so the properties of a walk are stated for some value object pointing
  to the node reached.
\<close>

definition points_to :: "('v, 'ty) debugger \<Rightarrow> 'v \<Rightarrow> 64 word \<Rightarrow> bool" where
  "points_to D h a \<longleftrightarrow> vo_ResolveValue D h = Some a \<and> \<not> vo_GetErrorFail D h"

fun root_of :: "64 word tree \<Rightarrow> 64 word" where
  "root_of Leaf = 0"
| "root_of (Node l a r) = a"

fun shaped ::
  "(64 word \<Rightarrow> 64 word) \<Rightarrow> (64 word \<Rightarrow> 64 word) \<Rightarrow> (64 word \<Rightarrow> 64 word)
     \<Rightarrow> 64 word tree \<Rightarrow> 64 word \<Rightarrow> bool" where
  "shaped L R P Leaf p = True"
| "shaped L R P (Node l a r) p =
     (P a = p \<and> L a = root_of l \<and> R a = root_of r \<and> shaped L R P l a \<and> shaped L R P r a)"

definition readable ::
  "('v, 'ty) debugger \<Rightarrow> (64 word \<Rightarrow> 64 word) \<Rightarrow> (64 word \<Rightarrow> 64 word)
     \<Rightarrow> (64 word \<Rightarrow> 64 word) \<Rightarrow> 64 word set \<Rightarrow> bool" where
  "readable D L R P A \<longleftrightarrow>
     (\<forall>h a. points_to D h a \<and> a \<in> A \<longrightarrow>
        (\<exists>l. MapEntry_left D (Some h) = Some l \<and> points_to D l (L a))
        \<and> (\<exists>r. MapEntry_right D (Some h) = Some r \<and> points_to D r (R a))
        \<and> (\<exists>p. MapEntry_parent D (Some h) = Some p \<and> points_to D p (P a)))"

fun rspine :: "'a tree \<Rightarrow> nat" where
  "rspine Leaf = 0"
| "rspine (Node l a r) = (if r = Leaf then 0 else Suc (rspine r))"


section \<open>A well-formed map\<close>

text \<open>
  A map is well formed, for the state \<open>u\<close> that \<^verbatim>\<open>Update()\<close> left, when its tree \<open>t\<close> lies in
  the process with fewer than \<open>2 ^ 32\<close> nodes, none at the null address and no two at
  the same address; when its size field reads the number of nodes and \<open>m_root_node\<close>
  points to the first node in order; when the element type and the payload offset
  resolve; and when the pair of every node can be read at that offset, from a pointer to
  the node and, for the first node, from the dereferenced \<open>m_root_node\<close>, and cloned into a
  child whose key, read by \<open>key_of\<close>, is the key \<open>node_key\<close> gives the node.
\<close>

definition pair_readable ::
  "('v, 'ty) debugger \<Rightarrow> 'v \<Rightarrow> 32 word \<Rightarrow> 'ty option \<Rightarrow> ('v \<Rightarrow> 'k) \<Rightarrow> 'k \<Rightarrow> bool" where
  "pair_readable D h skip ty key_of k \<longleftrightarrow>
     (\<exists>p. vo_GetSyntheticChildAtOffset D h (unat skip) ty = Some p
          \<and> (\<forall>name. \<exists>r. potential_child D p name = Some r \<and> key_of r = k))"

definition well_formed_map ::
  "('v, 'ty) debugger \<Rightarrow> ('v, 'ty) LibcxxStdMapSyntheticFrontEnd
     \<Rightarrow> (64 word \<Rightarrow> 64 word) \<Rightarrow> (64 word \<Rightarrow> 64 word) \<Rightarrow> (64 word \<Rightarrow> 64 word)
     \<Rightarrow> 64 word tree \<Rightarrow> 64 word \<Rightarrow> ('v \<Rightarrow> 'k) \<Rightarrow> (64 word \<Rightarrow> 'k) \<Rightarrow> bool" where
  "well_formed_map D u L R P t e key_of node_key \<longleftrightarrow>
     m_tree u \<noteq> None
     \<and> size_value D u = Some (of_nat (size t)) \<and> size t < 2 ^ 32
     \<and> shaped L R P t e \<and> distinct (inorder t) \<and> 0 \<notin> set_tree t
     \<and> readable D L R P (set_tree t)
     \<and> resolved_type D u \<noteq> None \<and> resolved_skip D u \<noteq> UINT32_MAX
     \<and> (t \<noteq> Leaf \<longrightarrow>
          (\<exists>h0 d. m_root_node u = Some h0 \<and> points_to D h0 (hd (inorder t))
                 \<and> vo_Dereference D h0 = (Some d, False)
                 \<and> pair_readable D d (resolved_skip D u) (resolved_type D u) key_of
                      (node_key (hd (inorder t)))))
     \<and> (\<forall>h a. points_to D h a \<and> a \<in> set_tree t \<longrightarrow>
           pair_readable D h (resolved_skip D u) (resolved_type D u) key_of (node_key a))"

text \<open>Asking for the children of a list of indices, one after the other.\<close>

fun consume ::
  "('v, 'ty) debugger \<Rightarrow> ('v, 'ty) LibcxxStdMapSyntheticFrontEnd \<Rightarrow> 32 word list
     \<Rightarrow> 'v option list \<times> ('v, 'ty) LibcxxStdMapSyntheticFrontEnd" where
  "consume D s [] = ([], s)"
| "consume D s (idx # idxs) =
     (case GetChildAtIndex D s idx of (r, s') \<Rightarrow>
        (case consume D s' idxs of (rs, s'') \<Rightarrow> (r # rs, s'')))"


section \<open>More of the sample process\<close>

text \<open>
  Cursors, iterators and front ends over the sample memories, for concrete runs: the map
  of three elements with its tree and its links, the two nodes whose parent links form
  a cycle, the nodes whose left links or right links form a cycle, the nodes with a
  parent link or a left link that cannot be read, a type system that gives no payload
  offset, and a size field that reads \<open>2 ^ 32 + 1\<close>.
\<close>

definition torn_cursor :: "vobj MapIterator" where
  "torn_cursor = MapIterator_new (Some (Ptr 0x3000)) 2"

definition cycle_cursor :: "vobj MapIterator" where
  "cycle_cursor = MapIterator_new (Some (Ptr 0x3000)) 2"

definition null_iterator :: "vobj LibCxxMapIteratorSyntheticFrontEnd" where
  "null_iterator = \<lparr>mi_backend = IterV 0, m_pair_ptr = None, m_pair_sp = None\<rparr>"

definition node2_iterator :: "vobj LibCxxMapIteratorSyntheticFrontEnd" where
  "node2_iterator = \<lparr>mi_backend = IterV 0x2000, m_pair_ptr = None, m_pair_sp = None\<rparr>"

definition cell :: "(64 word \<rightharpoonup> 64 word) \<Rightarrow> 64 word \<Rightarrow> 64 word" where
  "cell mem a = (case mem a of None \<Rightarrow> 0 | Some x \<Rightarrow> x)"

definition map3_tree :: "64 word tree" where
  "map3_tree = Node (Node Leaf 0x3000 Leaf) 0x2000 (Node Leaf 0x4000 Leaf)"

definition map3_left :: "64 word \<Rightarrow> 64 word" where
  "map3_left a = cell map3_memory a"

definition map3_right :: "64 word \<Rightarrow> 64 word" where
  "map3_right a = cell map3_memory (a + 8)"

definition map3_parent :: "64 word \<Rightarrow> 64 word" where
  "map3_parent a = cell map3_memory (a + 16)"

definition map3_node_key :: "64 word \<Rightarrow> 64 word" where
  "map3_node_key a = cell map3_memory (a + 32)"

definition map3_key_of :: "vobj \<Rightarrow> 64 word" where
  "map3_key_of r = (case r of CloneV (PairV a) n \<Rightarrow> cell map3_memory a | _ \<Rightarrow> 0)"

definition cycle_view :: "(vobj, ctype) LibcxxStdMapSyntheticFrontEnd" where
  "cycle_view = LibcxxStdMapSyntheticFrontEnd_new cycle2 Backend"

definition torn_view :: "(vobj, ctype) LibcxxStdMapSyntheticFrontEnd" where
  "torn_view = LibcxxStdMapSyntheticFrontEnd_new torn2 Backend"

definition torn_left_cursor :: "vobj MapIterator" where
  "torn_left_cursor = MapIterator_new (Some (Ptr 0x3000)) 2"

definition torn_left_view :: "(vobj, ctype) LibcxxStdMapSyntheticFrontEnd" where
  "torn_left_view = LibcxxStdMapSyntheticFrontEnd_new torn_left2 Backend"

definition left_cycle_view :: "(vobj, ctype) LibcxxStdMapSyntheticFrontEnd" where
  "left_cycle_view = LibcxxStdMapSyntheticFrontEnd_new left_cycle2 Backend"

definition right_cycle_view :: "(vobj, ctype) LibcxxStdMapSyntheticFrontEnd" where
  "right_cycle_view = LibcxxStdMapSyntheticFrontEnd_new right_cycle12 Backend"

definition no_layout :: "('v, 'ty) debugger \<Rightarrow> ('v, 'ty) debugger" where
  "no_layout D = D\<lparr>ty_PayloadByteOffset := (\<lambda>node_ty elem_ty. None)\<rparr>"

definition map3_no_layout_view :: "(vobj, ctype) LibcxxStdMapSyntheticFrontEnd" where
  "map3_no_layout_view = LibcxxStdMapSyntheticFrontEnd_new (no_layout map3) Backend"

definition map3_asked0 :: "(vobj, ctype) LibcxxStdMapSyntheticFrontEnd" where
  "map3_asked0 = snd (GetChildAtIndex map3 map3_view 0)"




section \<open>Properties of the cursor\<close>

lemma climb_0 [simp]: "climb D e 0 = e"
  by (simp add: climb_def)

lemma climb_Suc: "climb D e (Suc k) = climb D (MapEntry_parent D e) k"
  by (simp add: climb_def funpow_swap1)

lemma descend_0 [simp]: "descend D x 0 = x"
  by (simp add: descend_def)

lemma descend_Suc: "descend D x (Suc k) = descend D (MapEntry_left D x) k"
  by (simp add: descend_def funpow_swap1)

lemma climbed_0 [simp]: "climbed D e 0"
  by (simp add: climbed_def)

lemma climbed_Suc:
  "climbed D e (Suc k) \<longleftrightarrow>
     \<not> is_left_child D e \<and> \<not> MapEntry_error D e \<and> climbed D (MapEntry_parent D e) k"
  unfolding climbed_def
  by (auto simp: less_Suc_eq_0_disj climb_Suc)

lemma descended_0 [simp]: "descended D x 0"
  by (simp add: descended_def)

lemma descended_Suc:
  "descended D x (Suc k) \<longleftrightarrow>
     \<not> MapEntry_null D (MapEntry_left D x) \<and> \<not> MapEntry_error D (MapEntry_left D x)
     \<and> descended D (MapEntry_left D x) k"
  unfolding descended_def
  by (auto simp: less_Suc_eq_0_disj descend_Suc)

lemma climb_meets_error_0:
  "climb_meets_error D 0 e \<longleftrightarrow> \<not> is_left_child D e \<and> MapEntry_error D e"
  by (simp add: climb_meets_error_def)

lemma climb_meets_error_Suc:
  "climb_meets_error D (Suc n) e \<longleftrightarrow>
     \<not> is_left_child D e \<and>
     (MapEntry_error D e \<or> climb_meets_error D n (MapEntry_parent D e))"
proof -
  have "climb_meets_error D (Suc n) e \<longleftrightarrow>
          (climbed D e 0 \<and> \<not> is_left_child D (climb D e 0) \<and> MapEntry_error D (climb D e 0))
          \<or> (\<exists>k\<le>n. climbed D e (Suc k) \<and> \<not> is_left_child D (climb D e (Suc k))
                      \<and> MapEntry_error D (climb D e (Suc k)))"
    unfolding climb_meets_error_def
    by (metis le0 not0_implies_Suc Suc_le_mono)
  then show ?thesis
    by (auto simp: climbed_Suc climb_Suc climb_meets_error_def)
qed

lemma descent_meets_error_0:
  "descent_meets_error D 0 x \<longleftrightarrow>
     \<not> MapEntry_null D (MapEntry_left D x) \<and> MapEntry_error D (MapEntry_left D x)"
  by (simp add: descent_meets_error_def descend_Suc)

lemma descent_meets_error_Suc:
  "descent_meets_error D (Suc n) x \<longleftrightarrow>
     \<not> MapEntry_null D (MapEntry_left D x) \<and>
     (MapEntry_error D (MapEntry_left D x) \<or> descent_meets_error D n (MapEntry_left D x))"
proof -
  have "descent_meets_error D (Suc n) x \<longleftrightarrow>
          (descended D x 0 \<and> \<not> MapEntry_null D (descend D x (Suc 0))
             \<and> MapEntry_error D (descend D x (Suc 0)))
          \<or> (\<exists>k\<le>n. descended D x (Suc k) \<and> \<not> MapEntry_null D (descend D x (Suc (Suc k)))
                      \<and> MapEntry_error D (descend D x (Suc (Suc k))))"
    unfolding descent_meets_error_def
    by (metis le0 not0_implies_Suc Suc_le_mono)
  then show ?thesis
    by (auto simp: descended_Suc descend_Suc descent_meets_error_def)
qed


subsection \<open>The loops of the cursor\<close>

lemma tree_min_loop_steps:
  "steps \<le> d \<Longrightarrow> fst (tree_min_loop D d err steps x l) \<le> Suc d"
proof (induction D d err steps x l rule: tree_min_loop.induct)
  case (1 D max_depth err steps x xleft)
  show ?case
    using 1
    by (subst tree_min_loop.simps) (auto simp: Let_def)
qed

lemma next_loop_steps:
  "steps \<le> m_max_depth it \<Longrightarrow> fst (next_loop D steps it) \<le> Suc (m_max_depth it)"
proof (induction D steps it rule: next_loop.induct)
  case (1 D steps it)
  show ?case
    using 1
    by (subst next_loop.simps) (auto simp: Let_def)
qed

lemma next_loop_max_depth:
  "m_max_depth (snd (snd (next_loop D steps it))) = m_max_depth it"
proof (induction D steps it rule: next_loop.induct)
  case (1 D steps it)
  show ?case
    using 1
    by (subst next_loop.simps) (auto simp: Let_def)
qed

lemma tree_min_loop_exceeds:
  "d - steps = n \<Longrightarrow> steps \<le> d \<Longrightarrow> descended D x (Suc n) \<Longrightarrow>
   tree_min_loop D d err steps x (MapEntry_left D x) = (Suc d, None, err)"
proof (induction n arbitrary: steps x)
  case 0
  then show ?case
    by (subst tree_min_loop.simps) (simp add: descended_Suc Let_def)
next
  case (Suc n)
  from Suc.prems have a: "d - Suc steps = n" "Suc steps \<le> d"
    and b: "descended D (MapEntry_left D x) (Suc n)"
    and c: "\<not> MapEntry_null D (MapEntry_left D x)" "\<not> MapEntry_error D (MapEntry_left D x)"
    by (auto simp: descended_Suc)
  show ?case
    using Suc.IH [OF a b] c a
    by (subst tree_min_loop.simps) (simp add: Let_def)
qed

lemma tree_min_loop_error:
  "d - steps = n \<Longrightarrow> steps \<le> d \<Longrightarrow>
   snd (snd (tree_min_loop D d err steps x (MapEntry_left D x)))
     \<longleftrightarrow> err \<or> descent_meets_error D n x"
proof (induction n arbitrary: steps x)
  case 0
  then show ?case
    by (subst tree_min_loop.simps) (simp add: descent_meets_error_0 Let_def)
next
  case (Suc n)
  from Suc.prems have a: "d - Suc steps = n" "Suc steps \<le> d"
    by auto
  show ?case
    using Suc.IH [OF a] a
    by (subst tree_min_loop.simps) (simp add: Let_def descent_meets_error_Suc)
qed

lemma next_loop_exceeds:
  "m_max_depth it - steps = n \<Longrightarrow> steps \<le> m_max_depth it \<Longrightarrow>
   climbed D (m_entry it) (Suc n) \<Longrightarrow>
   next_loop D steps it = (Suc (m_max_depth it), True, it\<lparr>m_entry := None\<rparr>)"
proof (induction n arbitrary: steps it)
  case 0
  then show ?case
    by (subst next_loop.simps) (simp add: climbed_Suc Let_def)
next
  case (Suc n)
  let ?it = "it\<lparr>m_entry := MapEntry_parent D (m_entry it)\<rparr>"
  from Suc.prems have a: "m_max_depth ?it - Suc steps = n" "Suc steps \<le> m_max_depth ?it"
    and b: "climbed D (m_entry ?it) (Suc n)"
    and c: "\<not> is_left_child D (m_entry it)" "\<not> MapEntry_error D (m_entry it)"
    by (auto simp: climbed_Suc)
  show ?case
    using Suc.IH [OF a b] c a
    by (subst next_loop.simps) (simp add: Let_def)
qed

lemma next_loop_error:
  "m_max_depth it - steps = n \<Longrightarrow> steps \<le> m_max_depth it \<Longrightarrow>
   m_error (snd (snd (next_loop D steps it)))
     \<longleftrightarrow> m_error it \<or> climb_meets_error D n (m_entry it)"
proof (induction n arbitrary: steps it)
  case 0
  then show ?case
    by (subst next_loop.simps) (simp add: climb_meets_error_0 Let_def)
next
  case (Suc n)
  let ?it = "it\<lparr>m_entry := MapEntry_parent D (m_entry it)\<rparr>"
  from Suc.prems have a: "m_max_depth ?it - Suc steps = n" "Suc steps \<le> m_max_depth ?it"
    by auto
  show ?case
    using Suc.IH [OF a] a
    by (subst next_loop.simps) (simp add: Let_def climb_meets_error_Suc)
qed

lemma MapIterator_next_error:
  "m_error (MapIterator_next D it) \<longleftrightarrow>
     m_error it \<or>
     (\<not> MapEntry_null D (m_entry it) \<and>
      (if \<not> MapEntry_null D (MapEntry_right D (m_entry it))
       then descent_meets_error D (m_max_depth it) (MapEntry_right D (m_entry it))
       else climb_meets_error D (m_max_depth it) (m_entry it)))"
  using next_loop_error [of it 0 "m_max_depth it" D]
        tree_min_loop_error [of "m_max_depth it" 0 "m_max_depth it" D "m_error it"
                                "MapEntry_right D (m_entry it)"]
  by (auto simp: MapIterator_next_def tree_min_def Let_def split: prod.splits)

lemma MapIterator_next_max_depth:
  "m_max_depth (MapIterator_next D it) = m_max_depth it"
  using next_loop_max_depth [of D 0 it]
  by (auto simp: MapIterator_next_def tree_min_def Let_def split: prod.splits)

lemma advance_loop_steps:
  "steps \<le> m_max_depth it \<Longrightarrow>
   fst (advance_loop D count steps it) \<le> steps + count
   \<and> fst (advance_loop D count steps it) \<le> Suc (m_max_depth it)"
proof (induction count arbitrary: steps it)
  case 0
  then show ?case by simp
next
  case (Suc count)
  show ?case
    using Suc.IH [of "Suc steps" "MapIterator_next D it"] Suc.prems
    by (auto simp: Let_def MapIterator_next_max_depth)
qed

lemma next_loop_never_left:
  "m_max_depth it - steps = n \<Longrightarrow> steps \<le> m_max_depth it \<Longrightarrow>
   \<forall>j\<le>n. \<not> is_left_child D (climb D (m_entry it) j) \<Longrightarrow>
   fst (snd (next_loop D steps it))
   \<and> (m_error (snd (snd (next_loop D steps it)))
        \<or> m_entry (snd (snd (next_loop D steps it))) = None)"
proof (induction n arbitrary: steps it)
  case 0
  then show ?case
    by (subst (1 2 3) next_loop.simps) (simp add: Let_def)
next
  case (Suc n)
  let ?it = "it\<lparr>m_entry := MapEntry_parent D (m_entry it)\<rparr>"
  from Suc.prems have a: "m_max_depth ?it - Suc steps = n" "Suc steps \<le> m_max_depth ?it"
    by auto
  from Suc.prems(3) have c: "\<not> is_left_child D (m_entry it)"
    by (metis climb_0 le0)
  have b: "\<forall>j\<le>n. \<not> is_left_child D (climb D (m_entry ?it) j)"
  proof (intro allI impI)
    fix j assume "j \<le> n"
    with Suc.prems(3) have "\<not> is_left_child D (climb D (m_entry it) (Suc j))"
      by simp
    then show "\<not> is_left_child D (climb D (m_entry ?it) j)"
      by (simp add: climb_Suc)
  qed
  show ?case
    using Suc.IH [OF a b] c a
    by (subst (1 2 3) next_loop.simps) (simp add: Let_def)
qed

lemma tree_min_loop_never_null:
  "d - steps = n \<Longrightarrow> steps \<le> d \<Longrightarrow>
   \<forall>j\<le>n. \<not> MapEntry_null D (descend D x (Suc j)) \<Longrightarrow>
   fst (snd (tree_min_loop D d err steps x (MapEntry_left D x))) = None"
proof (induction n arbitrary: steps x)
  case 0
  from 0(3) have "\<not> MapEntry_null D (MapEntry_left D x)"
    by (simp add: descend_Suc)
  with 0 show ?case
    by (subst tree_min_loop.simps) (simp add: Let_def)
next
  case (Suc n)
  from Suc.prems have a: "d - Suc steps = n" "Suc steps \<le> d"
    by auto
  from Suc.prems(3) have c: "\<not> MapEntry_null D (MapEntry_left D x)"
    by (metis descend_0 descend_Suc le0)
  have b: "\<forall>j\<le>n. \<not> MapEntry_null D (descend D (MapEntry_left D x) (Suc j))"
  proof (intro allI impI)
    fix j assume "j \<le> n"
    with Suc.prems(3) have "\<not> MapEntry_null D (descend D x (Suc (Suc j)))"
      by simp
    then show "\<not> MapEntry_null D (descend D (MapEntry_left D x) (Suc j))"
      by (simp add: descend_Suc)
  qed
  show ?case
    using Suc.IH [OF a b] c a
    by (subst tree_min_loop.simps) (simp add: Let_def)
qed

lemma MapEntry_null_None: "MapEntry_null D None"
  by (simp add: MapEntry_null_def MapEntry_value_def)

lemma next_gives_up:
  assumes "(MapEntry_null D (MapEntry_right D (m_entry it))
              \<and> (\<forall>j\<le>m_max_depth it. \<not> is_left_child D (climb D (m_entry it) j)))
           \<or> (\<not> MapEntry_null D (MapEntry_right D (m_entry it))
              \<and> (\<forall>j\<le>m_max_depth it.
                    \<not> MapEntry_null D (descend D (MapEntry_right D (m_entry it)) (Suc j))))"
  shows "m_error (MapIterator_next D it) \<or> MapEntry_null D (m_entry (MapIterator_next D it))"
proof (cases "MapEntry_null D (m_entry it)")
  case True
  then show ?thesis
    by (simp add: MapIterator_next_def)
next
  case False
  from assms show ?thesis
  proof
    assume a: "MapEntry_null D (MapEntry_right D (m_entry it))
                 \<and> (\<forall>j\<le>m_max_depth it. \<not> is_left_child D (climb D (m_entry it) j))"
    obtain st r it' where l: "next_loop D 0 it = (st, r, it')"
      by (cases "next_loop D 0 it")
    from next_loop_never_left [of it 0 "m_max_depth it" D] a l
    have "r" and "m_error it' \<or> m_entry it' = None"
      by simp_all
    with a False l show ?thesis
      by (auto simp: MapIterator_next_def MapEntry_null_None)
  next
    assume a: "\<not> MapEntry_null D (MapEntry_right D (m_entry it))
                 \<and> (\<forall>j\<le>m_max_depth it.
                       \<not> MapEntry_null D (descend D (MapEntry_right D (m_entry it)) (Suc j)))"
    from tree_min_loop_never_null [of "m_max_depth it" 0 "m_max_depth it" D
                                      "MapEntry_right D (m_entry it)" "m_error it"] a
    have "fst (snd (tree_min_loop D (m_max_depth it) (m_error it) 0 (MapEntry_right D (m_entry it))
                 (MapEntry_left D (MapEntry_right D (m_entry it))))) = None"
      by simp
    with a False show ?thesis
      by (simp add: MapIterator_next_def tree_min_def split_beta MapEntry_null_None Let_def)
  qed
qed

lemma climb_add: "climb D e (a + b) = climb D (climb D e b) a"
  by (simp add: climb_def funpow_add)

lemma descend_add: "descend D x (a + b) = descend D (descend D x b) a"
  by (simp add: descend_def funpow_add)

lemma climb_cycle:
  assumes "climb D e p = e"
  shows "climb D e (p * q + r) = climb D e r"
proof (induction q)
  case 0
  then show ?case by simp
next
  case (Suc q)
  have "climb D e (p * Suc q + r) = climb D e ((p * q + r) + p)"
    by (simp add: algebra_simps)
  also have "\<dots> = climb D e (p * q + r)"
    using assms by (simp only: climb_add [of D e "p * q + r" p])
  finally show ?case using Suc by simp
qed

lemma descend_cycle:
  assumes "descend D x p = x"
  shows "descend D x (p * q + r) = descend D x r"
proof (induction q)
  case 0
  then show ?case by simp
next
  case (Suc q)
  have "descend D x (p * Suc q + r) = descend D x ((p * q + r) + p)"
    by (simp add: algebra_simps)
  also have "\<dots> = descend D x (p * q + r)"
    using assms by (simp only: descend_add [of D x "p * q + r" p])
  finally show ?case using Suc by simp
qed

lemma parent_cycle_never_left:
  assumes "0 < p" and "climb D e p = e" and "\<forall>j<p. \<not> is_left_child D (climb D e j)"
  shows "\<not> is_left_child D (climb D e n)"
proof -
  have "climb D e n = climb D e (p * (n div p) + n mod p)"
    by simp
  also have "\<dots> = climb D e (n mod p)"
    by (rule climb_cycle [OF assms(2)])
  finally show ?thesis
    using assms(1,3) by simp
qed

lemma left_cycle_never_null:
  assumes "0 < p" and "descend D x p = x" and "\<forall>j<p. \<not> MapEntry_null D (descend D x j)"
  shows "\<not> MapEntry_null D (descend D x n)"
proof -
  have "descend D x n = descend D x (p * (n div p) + n mod p)"
    by simp
  also have "\<dots> = descend D x (n mod p)"
    by (rule descend_cycle [OF assms(2)])
  finally show ?thesis
    using assms(1,3) by simp
qed

lemma climbed_0_code: "climbed D e 0 \<longleftrightarrow> True"
  by simp

lemma descended_0_code: "descended D x 0 \<longleftrightarrow> True"
  by simp

lemmas [code] = climbed_0_code climbed_Suc descended_0_code descended_Suc
  climb_meets_error_0 climb_meets_error_Suc descent_meets_error_0 descent_meets_error_Suc

section \<open>Claims about the cursor and about the iterator front end\<close>

lemma advance_null_entry:
  "\<not> m_error it \<Longrightarrow> MapEntry_null D (m_entry it) \<Longrightarrow> m_entry it = None
   \<Longrightarrow> MapIterator_advance D it k = (None, it)"
  by (cases k) (simp_all add: MapIterator_advance_def MapIterator_next_def Let_def)

text \<open>
  Claim C10. For a cursor whose error flag is not set, \<^verbatim>\<open>advance(0)\<close> runs no step of the
  loop (the counter \<^verbatim>\<open>steps\<close> stays 0) and returns the current entry, which is the null
  pointer when the entry is absent; the cursor (its entry, its budget and its flag) is
  unchanged.
\<close>

theorem advance_zero_returns_current_entry:
  "\<not> m_error it \<Longrightarrow>
   MapIterator_advance D it 0 = (m_entry it, it) \<and> advance_loop D 0 0 it = (0, m_entry it, it)"
  by (simp add: MapIterator_advance_def)

theorem advance_zero_returns_current_entry_witness:
  "\<not> m_error (MapIterator_new (Some (Ptr 0x3000)) 3)
   \<and> MapIterator_advance map3 (MapIterator_new (Some (Ptr 0x3000)) 3) 0
       = (Some (Ptr 0x3000), MapIterator_new (Some (Ptr 0x3000)) 3)
   \<and> \<not> m_error (MapIterator_new (None :: vobj option) 3)
   \<and> fst (MapIterator_advance map3 (MapIterator_new None 3) 0) = None"
proof -
  have h: "\<not> m_error (MapIterator_new (Some (Ptr 0x3000)) 3)"
    and h': "\<not> m_error (MapIterator_new (None :: vobj option) 3)"
    by (simp_all add: MapIterator_new_def)
  show ?thesis
    using advance_zero_returns_current_entry [OF h, of map3]
          advance_zero_returns_current_entry [OF h', of map3] h h'
    by (simp add: MapIterator_new_def)
qed

text \<open>
  Once the error flag of a cursor is set, every call of \<^verbatim>\<open>advance\<close> returns the null
  pointer and leaves the cursor as it is, whatever the debugger \<open>D\<close> would read. One step
  \<^verbatim>\<open>next\<close> leaves the flag set exactly when it was set before, or the entry is not null
  and either the descent below its right entry meets, within the budget, a left entry
  that is in error and not null, or, when the right entry is null, the upward walk meets,
  within the budget, an entry that is in error and not a left child.
\<close>

lemma error_flag_is_sticky:
  "(m_error it \<longrightarrow> MapIterator_advance D it count = (None, it))
   \<and> (m_error (MapIterator_next D it) \<longleftrightarrow>
        m_error it \<or>
        (\<not> MapEntry_null D (m_entry it) \<and>
         (if \<not> MapEntry_null D (MapEntry_right D (m_entry it))
          then descent_meets_error D (m_max_depth it) (MapEntry_right D (m_entry it))
          else climb_meets_error D (m_max_depth it) (m_entry it))))"
  using MapIterator_next_error [of D it]
  by (simp add: MapIterator_advance_def)

lemma error_flag_set_by_upward_walk:
  "\<not> m_error torn_cursor
   \<and> climb_meets_error torn2 (m_max_depth torn_cursor) (m_entry torn_cursor)
   \<and> m_error (MapIterator_next torn2 torn_cursor)
   \<and> MapIterator_advance torn2 (MapIterator_next torn2 torn_cursor) 1
       = (None, MapIterator_next torn2 torn_cursor)"
proof -
  have a: "\<not> m_error torn_cursor"
    by (simp add: torn_cursor_def MapIterator_new_def)
  have b: "\<not> MapEntry_null torn2 (m_entry torn_cursor)"
    by code_simp
  have c: "MapEntry_null torn2 (MapEntry_right torn2 (m_entry torn_cursor))"
    by code_simp
  have d: "climb_meets_error torn2 (m_max_depth torn_cursor) (m_entry torn_cursor)"
    by code_simp
  from error_flag_is_sticky [of torn_cursor torn2 0] a b c d
  have e: "m_error (MapIterator_next torn2 torn_cursor)"
    by simp
  from error_flag_is_sticky [of "MapIterator_next torn2 torn_cursor" torn2 1] e
  have "MapIterator_advance torn2 (MapIterator_next torn2 torn_cursor) 1
          = (None, MapIterator_next torn2 torn_cursor)"
    by blast
  with a d e show ?thesis by simp
qed

text \<open>
  Claim C5, at an input where it fails. The left link of the node at \<open>0x4000\<close> cannot be
  read: the entry read from it is in error and reads as the null address. The step from
  the node at \<open>0x3000\<close> takes the right link to \<open>0x4000\<close> and starts the descent there; the
  guard \<^verbatim>\<open>!left.null()\<close> of the loop of \<^verbatim>\<open>tree_min\<close> ends the descent before the test
  \<^verbatim>\<open>left.error()\<close> inside the loop is reached. The flag stays unset, \<^verbatim>\<open>advance(1)\<close> returns
  the node at \<open>0x4000\<close>, and \<^verbatim>\<open>GetChildAtIndex(1)\<close> returns a child and keeps the tree
  pointer. The upward walk does set the flag at an entry of the same kind: where the
  parent link of the node at \<open>0x3000\<close> cannot be read, the entry read from it is in error
  and reads as null, and \<^verbatim>\<open>next\<close> sets the flag.
\<close>

theorem unreadable_left_link_is_not_flagged:
  "MapEntry_right torn_left2 (m_entry torn_left_cursor) = Some (Ptr 0x4000)
   \<and> MapEntry_left torn_left2 (Some (Ptr 0x4000)) = Some (Unread 0x4000)
   \<and> MapEntry_error torn_left2 (Some (Unread 0x4000))
   \<and> MapIterator_next torn_left2 torn_left_cursor
       = torn_left_cursor\<lparr>m_entry := Some (Ptr 0x4000)\<rparr>
   \<and> \<not> m_error (MapIterator_next torn_left2 torn_left_cursor)
   \<and> fst (MapIterator_advance torn_left2 torn_left_cursor 1) = Some (Ptr 0x4000)
   \<and> fst (GetChildAtIndex torn_left2 torn_left_view 1) = Some (CloneV (PairV 0x4020) ''[1]'')
   \<and> m_tree (snd (GetChildAtIndex torn_left2 torn_left_view 1)) = Some TreeV
   \<and> MapEntry_parent torn2 (m_entry torn_cursor) = Some (Unread 0x3010)
   \<and> MapEntry_error torn2 (Some (Unread 0x3010))
   \<and> m_error (MapIterator_next torn2 torn_cursor)"
  by code_simp

text \<open>
  Claim C6. When the upward walk has climbed more often than the budget allows, or the
  descent has stepped down more often, \<^verbatim>\<open>next\<close> leaves the cursor at the null entry
  with its error flag as it was, so not set; \<^verbatim>\<open>advance\<close> returns the null pointer then,
  and so does every later call, with the flag still not set.
\<close>

theorem budget_exceeded_is_not_an_error:
  assumes "\<not> m_error it" and "\<not> MapEntry_null D (m_entry it)"
    and "(MapEntry_null D (MapEntry_right D (m_entry it))
            \<and> climbed D (m_entry it) (Suc (m_max_depth it)))
         \<or> (\<not> MapEntry_null D (MapEntry_right D (m_entry it))
            \<and> descended D (MapEntry_right D (m_entry it)) (Suc (m_max_depth it)))"
  shows "MapIterator_next D it = it\<lparr>m_entry := None\<rparr>
         \<and> \<not> m_error (MapIterator_next D it)
         \<and> MapEntry_null D (m_entry (MapIterator_next D it))
         \<and> MapIterator_advance D it (Suc n) = (None, it\<lparr>m_entry := None\<rparr>)
         \<and> MapIterator_advance D (it\<lparr>m_entry := None\<rparr>) k = (None, it\<lparr>m_entry := None\<rparr>)"
proof -
  have nxt: "MapIterator_next D it = it\<lparr>m_entry := None\<rparr>"
    using assms(3)
  proof
    assume a: "MapEntry_null D (MapEntry_right D (m_entry it))
                 \<and> climbed D (m_entry it) (Suc (m_max_depth it))"
    then have "next_loop D 0 it = (Suc (m_max_depth it), True, it\<lparr>m_entry := None\<rparr>)"
      using next_loop_exceeds [of it 0 "m_max_depth it" D] by simp
    with a assms(2) show ?thesis
      by (simp add: MapIterator_next_def)
  next
    assume a: "\<not> MapEntry_null D (MapEntry_right D (m_entry it))
                 \<and> descended D (MapEntry_right D (m_entry it)) (Suc (m_max_depth it))"
    then have "tree_min_loop D (m_max_depth it) (m_error it) 0 (MapEntry_right D (m_entry it))
                 (MapEntry_left D (MapEntry_right D (m_entry it)))
               = (Suc (m_max_depth it), None, m_error it)"
      using tree_min_loop_exceeds [of "m_max_depth it" 0 "m_max_depth it" D
                                      "MapEntry_right D (m_entry it)" "m_error it"]
      by simp
    with a assms(2) show ?thesis
      by (simp add: MapIterator_next_def tree_min_def)
  qed
  have null_none: "MapEntry_null D None"
    by (simp add: MapEntry_null_def MapEntry_value_def)
  have adv: "MapIterator_advance D it (Suc n) = (None, it\<lparr>m_entry := None\<rparr>)"
    using assms(1) nxt null_none
    by (simp add: MapIterator_advance_def)
  have later: "MapIterator_advance D (it\<lparr>m_entry := None\<rparr>) k = (None, it\<lparr>m_entry := None\<rparr>)"
    using assms(1) null_none
    by (intro advance_null_entry) simp_all
  show ?thesis
    using nxt adv later assms(1) null_none by simp
qed

theorem budget_exceeded_is_not_an_error_witness:
  "\<not> m_error cycle_cursor
   \<and> \<not> MapEntry_null cycle2 (m_entry cycle_cursor)
   \<and> MapEntry_null cycle2 (MapEntry_right cycle2 (m_entry cycle_cursor))
   \<and> climbed cycle2 (m_entry cycle_cursor) (Suc (m_max_depth cycle_cursor))
   \<and> MapIterator_next cycle2 cycle_cursor = cycle_cursor\<lparr>m_entry := None\<rparr>
   \<and> \<not> m_error (MapIterator_next cycle2 cycle_cursor)
   \<and> MapIterator_advance cycle2 cycle_cursor (Suc 0) = (None, cycle_cursor\<lparr>m_entry := None\<rparr>)"
proof -
  have a: "\<not> m_error cycle_cursor"
    by (simp add: cycle_cursor_def MapIterator_new_def)
  have b: "\<not> MapEntry_null cycle2 (m_entry cycle_cursor)"
    by code_simp
  have c: "MapEntry_null cycle2 (MapEntry_right cycle2 (m_entry cycle_cursor))"
    by code_simp
  have d: "climbed cycle2 (m_entry cycle_cursor) (Suc (m_max_depth cycle_cursor))"
    by code_simp
  from c d have e: "(MapEntry_null cycle2 (MapEntry_right cycle2 (m_entry cycle_cursor))
            \<and> climbed cycle2 (m_entry cycle_cursor) (Suc (m_max_depth cycle_cursor)))
         \<or> (\<not> MapEntry_null cycle2 (MapEntry_right cycle2 (m_entry cycle_cursor))
            \<and> descended cycle2 (MapEntry_right cycle2 (m_entry cycle_cursor))
                 (Suc (m_max_depth cycle_cursor)))"
    by simp
  show ?thesis
    using budget_exceeded_is_not_an_error [OF a b e, of 0 0] a b c d
    by simp
qed


text \<open>
  Claim C8. When the expression path to the pair gives nothing and the pointer the
  iterator holds reads as 0 or as \<^verbatim>\<open>LLDB_INVALID_ADDRESS\<close>, \<^verbatim>\<open>Update\<close> leaves both
  \<open>m_pair_ptr\<close> and \<open>m_pair_sp\<close> null, and \<^verbatim>\<open>GetChildAtIndex\<close> returns the null pointer for
  every index.
\<close>

theorem recover_pair_null_or_invalid_address:
  assumes "vo_GetSP T (mi_backend s) = Some valobj"
    and "vo_GetValueForExpressionPath T valobj ''.__i_.__ptr_->__value_'' = None"
    and "vo_GetValueForExpressionPath T valobj ''.__i_.__ptr_'' = Some ptr"
    and "GetValueAsUnsigned D ptr (LLDB_INVALID_ADDRESS T) = 0
         \<or> GetValueAsUnsigned D ptr (LLDB_INVALID_ADDRESS T) = LLDB_INVALID_ADDRESS T"
  shows "m_pair_ptr (LibCxxMapIterator_Update D T s) = None
         \<and> m_pair_sp (LibCxxMapIterator_Update D T s) = None
         \<and> LibCxxMapIterator_GetChildAtIndex D (LibCxxMapIterator_Update D T s) idx = None"
proof -
  have "m_pair_ptr (LibCxxMapIterator_Update D T s) = None
        \<and> m_pair_sp (LibCxxMapIterator_Update D T s) = None"
    using assms
    by (auto simp: LibCxxMapIterator_Update_def Let_def split: option.splits)
  then show ?thesis
    by (simp add: LibCxxMapIterator_GetChildAtIndex_def)
qed

theorem recover_pair_null_or_invalid_address_witness:
  "vo_GetSP (process_target map3_memory) (mi_backend null_iterator) = Some (IterV 0)
   \<and> vo_GetValueForExpressionPath (process_target map3_memory) (IterV 0)
        ''.__i_.__ptr_->__value_'' = None
   \<and> vo_GetValueForExpressionPath (process_target map3_memory) (IterV 0) ''.__i_.__ptr_''
        = Some (Ptr 0)
   \<and> GetValueAsUnsigned map3 (Ptr 0) (LLDB_INVALID_ADDRESS (process_target map3_memory)) = 0
   \<and> m_pair_sp (LibCxxMapIterator_Update map3 (process_target map3_memory) null_iterator) = None
   \<and> LibCxxMapIterator_GetChildAtIndex map3
        (LibCxxMapIterator_Update map3 (process_target map3_memory) null_iterator) 0 = None
   \<and> m_pair_sp (LibCxxMapIterator_Update map3 (process_target map3_memory) node2_iterator)
        \<noteq> None"
proof -
  have a: "vo_GetSP (process_target map3_memory) (mi_backend null_iterator) = Some (IterV 0)"
    by code_simp
  have b: "vo_GetValueForExpressionPath (process_target map3_memory) (IterV 0)
             ''.__i_.__ptr_->__value_'' = None"
    by code_simp
  have c: "vo_GetValueForExpressionPath (process_target map3_memory) (IterV 0) ''.__i_.__ptr_''
             = Some (Ptr 0)"
    by code_simp
  have d: "GetValueAsUnsigned map3 (Ptr 0) (LLDB_INVALID_ADDRESS (process_target map3_memory)) = 0"
    by code_simp
  have e: "m_pair_sp (LibCxxMapIterator_Update map3 (process_target map3_memory) node2_iterator)
             \<noteq> None"
    by code_simp
  show ?thesis
    using recover_pair_null_or_invalid_address [OF a b c disjI1 [OF d], of 0] a b c d e
    by simp
qed

section \<open>The front end and the container it inspects\<close>

subsection \<open>CalculateNumChildren\<close>

lemma CalculateNumChildren_unknown:
  "m_count s = UINT32_MAX \<Longrightarrow>
   CalculateNumChildren D s =
     (element_count D s, case size_value D s of None \<Rightarrow> s | Some n \<Rightarrow> s\<lparr>m_count := n\<rparr>)"
  by (simp add: CalculateNumChildren_def element_count_def size_value_def size_field_def
           Let_def split: option.splits)

lemma CalculateNumChildren_known:
  "m_count s \<noteq> UINT32_MAX \<Longrightarrow> CalculateNumChildren D s = (ucast (m_count s), s)"
  by (simp add: CalculateNumChildren_def)

lemma size_value_cong:
  "m_tree s = m_tree u \<Longrightarrow> size_value D s = size_value D u"
  by (simp add: size_value_def size_field_def)

lemma element_count_cong:
  "m_tree s = m_tree u \<Longrightarrow> element_count D s = element_count D u"
  using size_value_cong [of s u D] by (simp add: element_count_def)

lemma CalculateNumChildren_frame:
  "CalculateNumChildren D s = (n, s') \<Longrightarrow>
   \<exists>c. s' = s\<lparr>m_count := c\<rparr>
       \<and> (c = m_count s \<or> (m_count s = UINT32_MAX \<and> size_value D s = Some c))"
  by (cases "m_count s = (UINT32_MAX :: 64 word)")
     (auto simp: CalculateNumChildren_unknown CalculateNumChildren_known split: option.splits)

lemma consistent_count:
  "consistent D u s \<Longrightarrow> c = UINT32_MAX \<or> size_value D u = Some c \<Longrightarrow>
   consistent D u (s\<lparr>m_count := c\<rparr>)"
  by (simp add: consistent_def)

lemma consistent_tree:
  "consistent D u s \<Longrightarrow> m_tree s \<noteq> None \<Longrightarrow> m_tree s = m_tree u"
  by (simp add: consistent_def)

lemma size_value_tree: "size_value D s = Some c \<Longrightarrow> m_tree s \<noteq> None"
  by (auto simp: size_value_def size_field_def split: option.splits)

lemma CalculateNumChildren_consistent:
  assumes "consistent D u s" and "CalculateNumChildren D s = (n, s')"
  shows "consistent D u s'"
    and "\<exists>c. s' = s\<lparr>m_count := c\<rparr>"
    and "m_tree s \<noteq> None \<Longrightarrow> n = element_count D u"
    and "m_tree s = None \<Longrightarrow> m_count s = UINT32_MAX \<Longrightarrow> n = 0 \<and> s' = s"
proof -
  from CalculateNumChildren_frame [OF assms(2)]
  obtain c where s': "s' = s\<lparr>m_count := c\<rparr>"
    and fr: "c = m_count s \<or> (m_count s = UINT32_MAX \<and> size_value D s = Some c)"
    by blast
  from s' show "\<exists>c. s' = s\<lparr>m_count := c\<rparr>" by blast
  from assms(1) have c: "m_count s = UINT32_MAX \<or> size_value D u = Some (m_count s)"
    by (simp add: consistent_def)
  have "c = UINT32_MAX \<or> size_value D u = Some c"
  proof (cases "c = m_count s")
    case True
    with c show ?thesis by simp
  next
    case False
    with fr have v: "size_value D s = Some c"
      by simp
    then have "m_tree s \<noteq> None"
      by (rule size_value_tree)
    then have "size_value D s = size_value D u"
      by (intro size_value_cong consistent_tree [OF assms(1)])
    with v show ?thesis by simp
  qed
  from consistent_count [OF assms(1) this] s' show "consistent D u s'"
    by simp
  show "n = element_count D u" if "m_tree s \<noteq> None"
  proof -
    from that assms(1) have t: "m_tree s = m_tree u"
      by (intro consistent_tree)
    show ?thesis
    proof (cases "m_count s = UINT32_MAX")
      case True
      with assms(2) element_count_cong [OF t, of D] show ?thesis
        by (simp add: CalculateNumChildren_unknown)
    next
      case False
      with c have "size_value D u = Some (m_count s)"
        by simp
      with False assms(2) show ?thesis
        by (auto simp: CalculateNumChildren_known element_count_def)
    qed
  qed
  show "n = 0 \<and> s' = s" if "m_tree s = None" "m_count s = UINT32_MAX"
    using that assms(2) by (simp add: CalculateNumChildren_def)
qed


subsection \<open>GetDataType\<close>

lemma GetDataType_eq:
  "GetDataType D s =
     (if m_element_type s \<noteq> None then (True, s)
      else (resolve_element_type D (m_root_node s) (m_backend s) \<noteq> None,
            s\<lparr>m_element_type := resolve_element_type D (m_root_node s) (m_backend s)\<rparr>))"
  unfolding GetDataType_def resolve_element_type_def Let_def
  apply (cases "m_element_type s")
   apply (cases "m_root_node s")
    apply simp
   apply (simp split: prod.split)
   apply (intro allI impI conjI)
    apply (simp split: option.split)
  apply simp
  done

lemma resolved_type_eq:
  "resolved_type D s =
     (if m_element_type s \<noteq> None then m_element_type s
      else resolve_element_type D (m_root_node s) (m_backend s))"
  by (simp add: resolved_type_def GetDataType_eq)

lemma GetDataType_consistent:
  assumes "consistent D u s"
  shows "GetDataType D s = (resolved_type D u \<noteq> None, s\<lparr>m_element_type := resolved_type D u\<rparr>)"
proof -
  from assms have b: "m_root_node s = m_root_node u" "m_backend s = m_backend u"
    and e: "m_element_type s = m_element_type u \<or> m_element_type s = resolved_type D u"
    by (simp_all add: consistent_def)
  from e show ?thesis
  proof
    assume "m_element_type s = m_element_type u"
    with b show ?thesis
      by (simp add: GetDataType_eq resolved_type_eq)
  next
    assume r: "m_element_type s = resolved_type D u"
    show ?thesis
    proof (cases "m_element_type u")
      case None
      with r b show ?thesis
        by (simp add: GetDataType_eq resolved_type_eq)
    next
      case (Some t)
      with r b show ?thesis
        by (simp add: GetDataType_eq resolved_type_eq)
    qed
  qed
qed


subsection \<open>A cached cursor and a fresh one\<close>

lemma advance_loop_Some:
  "advance_loop D k st it = (st', Some v, c) \<Longrightarrow>
   st' = st + k \<and> m_max_depth c = m_max_depth it \<and> m_entry c = Some v
   \<and> (m_error c \<longrightarrow> m_error it)"
proof (induction k arbitrary: st it)
  case 0
  then show ?case by auto
next
  case (Suc k)
  from Suc.prems have "advance_loop D k (Suc st) (MapIterator_next D it) = (st', Some v, c)"
    and "\<not> m_error (MapIterator_next D it)"
    by (auto simp: Let_def split: if_splits)
  from Suc.IH [OF this(1)] this(2) show ?case
    by (auto simp: MapIterator_next_max_depth)
qed

lemma advance_loop_snoc:
  "advance_loop D k st it = (st', Some v, c) \<Longrightarrow>
   advance_loop D (Suc k) st it = advance_loop D (Suc 0) (st + k) c"
proof (induction k arbitrary: st it)
  case 0
  then show ?case by auto
next
  case (Suc k)
  from Suc.prems have a: "advance_loop D k (Suc st) (MapIterator_next D it) = (st', Some v, c)"
    and b: "\<not> (m_error (MapIterator_next D it)
               \<or> MapEntry_null D (m_entry (MapIterator_next D it))
               \<or> Suc st > m_max_depth (MapIterator_next D it))"
    by (auto simp: Let_def split: if_splits)
  have "advance_loop D (Suc (Suc k)) st it
          = advance_loop D (Suc k) (Suc st) (MapIterator_next D it)"
    using b by (subst advance_loop.simps) (simp add: Let_def)
  also have "\<dots> = advance_loop D (Suc 0) (Suc st + k) c"
    by (rule Suc.IH [OF a])
  finally show ?case by simp
qed

lemma advance_one_steps:
  "Suc st \<le> m_max_depth c \<Longrightarrow>
   snd (advance_loop D (Suc 0) st c) = snd (advance_loop D (Suc 0) 0 c)"
  by (simp add: Let_def MapIterator_next_max_depth)

lemma cached_cursor_step:
  assumes "MapIterator_advance D (MapIterator_new root n) k = (Some v, c)" and "k < n"
  shows "MapIterator_advance D c (Suc 0) = MapIterator_advance D (MapIterator_new root n) (Suc k)"
proof -
  let ?it = "MapIterator_new root n"
  have e: "\<not> m_error ?it" and d: "m_max_depth ?it = n"
    by (simp_all add: MapIterator_new_def)
  from assms(1) e obtain st' where l: "advance_loop D k 0 ?it = (st', Some v, c)"
    by (auto simp: MapIterator_advance_def split: prod.splits)
  from advance_loop_Some [OF l] e d have c: "\<not> m_error c" "m_max_depth c = n"
    by auto
  from advance_loop_snoc [OF l]
  have "snd (advance_loop D (Suc k) 0 ?it) = snd (advance_loop D (Suc 0) k c)"
    by simp
  also have "\<dots> = snd (advance_loop D (Suc 0) 0 c)"
    using c assms(2) by (intro advance_one_steps) simp
  finally show ?thesis
    using c e
    by (simp add: MapIterator_advance_def split_beta del: advance_loop.simps)
qed

lemma advance_gives_up:
  assumes a: "MapIterator_advance D (MapIterator_new root n) k = (Some v, c)"
    and g: "(MapEntry_null D (MapEntry_right D (Some v))
              \<and> (\<forall>j\<le>n. \<not> is_left_child D (climb D (Some v) j)))
           \<or> (\<not> MapEntry_null D (MapEntry_right D (Some v))
              \<and> (\<forall>j\<le>n. \<not> MapEntry_null D (descend D (MapEntry_right D (Some v)) (Suc j))))"
  shows "fst (MapIterator_advance D (MapIterator_new root n) (Suc k)) = None"
proof -
  let ?it = "MapIterator_new root n"
  have e: "\<not> m_error ?it" and d: "m_max_depth ?it = n"
    by (simp_all add: MapIterator_new_def)
  from a e obtain st' where l: "advance_loop D k 0 ?it = (st', Some v, c)"
    by (auto simp: MapIterator_advance_def split: prod.splits)
  from advance_loop_Some [OF l] e d have c: "m_max_depth c = n" "m_entry c = Some v"
    by auto
  from next_gives_up [of D c] g c
  have "m_error (MapIterator_next D c) \<or> MapEntry_null D (m_entry (MapIterator_next D c))"
    by simp
  then have "fst (snd (advance_loop D (Suc 0) k c)) = None"
    by (auto simp: Let_def)
  with advance_loop_snoc [OF l] have "fst (snd (advance_loop D (Suc k) 0 ?it)) = None"
    by simp
  with e show ?thesis
    by (simp add: MapIterator_advance_def split_beta del: advance_loop.simps)
qed


subsection \<open>GetValueOffset\<close>

lemma GetValueOffset_eq:
  "GetValueOffset D s (Some d) =
     s\<lparr>m_skip_size := skip_from D (m_skip_size s) (vo_GetCompilerType D d) (m_element_type s)\<rparr>"
  by (simp add: GetValueOffset_def skip_from_def split: option.splits)

lemma skip_from_idem:
  "skip_from D (skip_from D k t e) t e = skip_from D k t e"
  by (simp add: skip_from_def split: option.splits)

lemma GetDataType_skip: "m_skip_size (snd (GetDataType D s)) = m_skip_size s"
  by (simp add: GetDataType_eq)

lemma resolved_skip_eq:
  "m_root_node u = Some root \<Longrightarrow> vo_Dereference D root = (Some d, False) \<Longrightarrow>
   resolved_skip D u = skip_from D (m_skip_size u) (vo_GetCompilerType D d) (resolved_type D u)"
  by (simp add: resolved_skip_def GetValueOffset_eq resolved_type_def GetDataType_skip)

lemma resolved_skip_no_deref:
  "m_root_node u = Some root \<Longrightarrow> vo_Dereference D root = (d, f) \<Longrightarrow> d = None \<or> f \<Longrightarrow>
   resolved_skip D u = m_skip_size u"
  by (auto simp: resolved_skip_def split: option.splits bool.splits)

lemma skip_consistent:
  assumes "m_skip_size s = m_skip_size u \<or> m_skip_size s = resolved_skip D u"
    and "m_root_node u = Some root" and "vo_Dereference D root = (Some d, False)"
  shows "skip_from D (m_skip_size s) (vo_GetCompilerType D d) (resolved_type D u)
         = resolved_skip D u"
  using assms(1) resolved_skip_eq [OF assms(2,3)]
  by (auto simp: skip_from_idem)

subsection \<open>The pair of index 0\<close>

lemma GetKeyValuePair_0:
  "GetKeyValuePair D s 0 md =
     (case m_root_node s of
        None \<Rightarrow> (None, s)
      | Some root \<Rightarrow>
          (case GetDataType D s of
             (False, s1) \<Rightarrow> (None, s1)
           | (True, s1) \<Rightarrow>
               (case vo_Dereference D root of
                  (None, f) \<Rightarrow> (None, s1)
                | (Some d, f) \<Rightarrow>
                    if f then (None, s1)
                    else (let s2 = GetValueOffset D s1 (Some d) in
                      case vo_GetSyntheticChildAtOffset D d (unat (m_skip_size s2))
                             (m_element_type s2) of
                        None \<Rightarrow> (None, s2)
                      | Some p \<Rightarrow>
                          (Some p, s2\<lparr>m_iterators :=
                                        (m_iterators s2)(0 \<mapsto> MapIterator_new (Some root) md)\<rparr>)))))"
proof (cases "m_root_node s")
  case None
  then show ?thesis
    by (subst GetKeyValuePair.simps) (simp add: MapIterator_advance_def MapIterator_new_def)
next
  case (Some root)
  obtain b s1 where g: "GetDataType D s = (b, s1)"
    by (cases "GetDataType D s")
  obtain d f where d: "vo_Dereference D root = (d, f)"
    by (cases "vo_Dereference D root")
  show ?thesis
    using Some g d
    by (subst GetKeyValuePair.simps)
       (simp add: MapIterator_advance_def MapIterator_new_def Let_def
             split: option.splits bool.splits)
qed


lemma consistent_update_type:
  "consistent D u s \<Longrightarrow> consistent D u (s\<lparr>m_element_type := resolved_type D u\<rparr>)"
  by (simp add: consistent_def)

lemma consistent_update_skip:
  "consistent D u s \<Longrightarrow> consistent D u (s\<lparr>m_skip_size := resolved_skip D u\<rparr>)"
  by (simp add: consistent_def)

lemma consistent_update_cache:
  "consistent D u s \<Longrightarrow> k < unat (element_count D u) \<Longrightarrow> cursor_at D u k = (Some v, c) \<Longrightarrow>
   consistent D u (s\<lparr>m_iterators := (m_iterators s)(k \<mapsto> c)\<rparr>)"
  by (simp add: consistent_def)

lemma consistent_invalidate:
  "consistent D u s \<Longrightarrow> consistent D u (s\<lparr>m_tree := None\<rparr>)"
  by (simp add: consistent_def)

lemma resolved_skip_known:
  "m_skip_size u \<noteq> UINT32_MAX \<Longrightarrow> resolved_skip D u = m_skip_size u"
  by (simp add: resolved_skip_def GetValueOffset_eq skip_from_def GetDataType_skip
           split: option.splits prod.splits bool.splits)

lemma cursor_at_0:
  "cursor_at D u 0 = (m_root_node u, MapIterator_new (m_root_node u) (unat (element_count D u)))"
  by (simp add: cursor_at_def MapIterator_advance_def MapIterator_new_def)

lemma GetKeyValuePair_0_consistent:
  assumes c: "consistent D u s" and r: "m_root_node u = Some root"
    and n: "md = unat (element_count D u)" and pos: "0 < md"
  shows "\<exists>s'. GetKeyValuePair D s 0 md = (expected_pair D u 0, s')
              \<and> consistent D u s' \<and> m_tree s' = m_tree s
              \<and> m_element_type s' = resolved_type D u
              \<and> (resolved_type D u \<noteq> None \<longrightarrow> m_skip_size s' = resolved_skip D u)"
proof -
  let ?E = "resolved_type D u" and ?K = "resolved_skip D u"
  let ?s1 = "s\<lparr>m_element_type := ?E\<rparr>"
  from c r have rs: "m_root_node s = Some root"
    by (simp add: consistent_def)
  from c have f: "m_skip_size s = m_skip_size u \<or> m_skip_size s = ?K"
    by (simp add: consistent_def)
  note g = GetDataType_consistent [OF c]
  have c1: "consistent D u ?s1"
    by (rule consistent_update_type [OF c])
  obtain d fl where d: "vo_Dereference D root = (d, fl)"
    by (cases "vo_Dereference D root")
  show ?thesis
  proof (cases "?E = None")
    case True
    with rs g r c1 show ?thesis
      by (simp add: GetKeyValuePair_0 expected_pair_def cursor_at_0)
  next
    case E: False
    show ?thesis
    proof (cases "d = None \<or> fl")
      case True
      then have "?K = m_skip_size u"
        by (rule resolved_skip_no_deref [OF r d])
      with f have sk: "m_skip_size s = ?K" by auto
      show ?thesis
      proof (cases d)
        case None
        with sk rs g r c1 d E show ?thesis
          by (simp add: GetKeyValuePair_0 expected_pair_def cursor_at_0)
      next
        case (Some d')
        with True have "fl" by simp
        with Some sk rs g r c1 d E show ?thesis
          by (simp add: GetKeyValuePair_0 expected_pair_def cursor_at_0)
      qed
    next
      case False
      then obtain d' where d': "vo_Dereference D root = (Some d', False)"
        using d by auto
      have k: "GetValueOffset D ?s1 (Some d') = ?s1\<lparr>m_skip_size := ?K\<rparr>"
        using skip_consistent [OF f r d'] by (simp add: GetValueOffset_eq)
      have c2: "consistent D u (?s1\<lparr>m_skip_size := ?K\<rparr>)"
        by (rule consistent_update_skip [OF c1])
      have c3: "consistent D u (?s1\<lparr>m_skip_size := ?K,
                   m_iterators := (m_iterators s)(0 \<mapsto> MapIterator_new (Some root) md)\<rparr>)"
        using consistent_update_cache [OF c2, of 0 root "MapIterator_new (Some root) md"]
              pos n r
        by (simp add: cursor_at_0)
      have ep: "expected_pair D u 0 = vo_GetSyntheticChildAtOffset D d' (unat ?K) ?E"
        using r d' E by (auto simp: expected_pair_def cursor_at_0)
      show ?thesis
      proof (cases "vo_GetSyntheticChildAtOffset D d' (unat ?K) ?E")
        case None
        with rs g d' E k c2 ep show ?thesis
          by (simp add: GetKeyValuePair_0 Let_def)
      next
        case (Some p)
        with rs g d' E k c3 ep show ?thesis
          by (simp add: GetKeyValuePair_0 Let_def)
      qed
    qed
  qed
qed

lemma GetChildAtIndex_eq:
  "GetChildAtIndex D s idx =
     (case CalculateNumChildren D s of (num_children, s0) \<Rightarrow>
        if idx \<ge> num_children then (None, s0)
        else if m_tree s0 = None \<or> m_root_node s0 = None then (None, s0)
        else (case GetKeyValuePair D s0 (unat idx) (unat num_children) of
                (None, s1) \<Rightarrow> (None, s1\<lparr>m_tree := None\<rparr>)
              | (Some key_val_sp, s1) \<Rightarrow> (potential_child D key_val_sp (child_name idx), s1)))"
  by (subst GetChildAtIndex.simps) (simp add: CalculateNumChildrenIgnoringErrors_def)


lemma GetChildAtIndex_0_consistent:
  assumes c: "consistent D u s" and t: "m_tree s \<noteq> None"
    and r: "m_root_node u = Some root" and pos: "0 < element_count D u"
  shows "\<exists>s'. GetChildAtIndex D s 0 = (expected_child D u 0, s')
              \<and> consistent D u s' \<and> (m_tree s' = None \<or> m_tree s' = m_tree s)
              \<and> m_element_type s' = resolved_type D u
              \<and> (resolved_type D u \<noteq> None \<longrightarrow> m_skip_size s' = resolved_skip D u)
              \<and> (expected_pair D u 0 = None \<longrightarrow> m_tree s' = None)
              \<and> (expected_pair D u 0 \<noteq> None \<longrightarrow> m_tree s' = m_tree s)"
proof -
  obtain n s0 where n: "CalculateNumChildren D s = (n, s0)"
    by (cases "CalculateNumChildren D s")
  note cn = CalculateNumChildren_consistent [OF c n]
  from cn(3) t have n_eq: "n = element_count D u" by simp
  from cn(2) obtain cnt where s0: "s0 = s\<lparr>m_count := cnt\<rparr>" by blast
  from s0 t have t0: "m_tree s0 = m_tree s" "m_tree s0 \<noteq> None" by simp_all
  from cn(1) r have r0: "m_root_node s0 = Some root"
    by (simp add: consistent_def)
  from pos n_eq have npos: "0 < unat n" "\<not> 0 \<ge> n"
    by (simp_all add: unat_gt_0 word_greater_zero_iff)
  from GetKeyValuePair_0_consistent [OF cn(1) r _ npos(1)] n_eq
  obtain s1 where k: "GetKeyValuePair D s0 0 (unat n) = (expected_pair D u 0, s1)"
    and c1: "consistent D u s1" and t1: "m_tree s1 = m_tree s0"
    and e1: "m_element_type s1 = resolved_type D u"
    and k1: "resolved_type D u \<noteq> None \<longrightarrow> m_skip_size s1 = resolved_skip D u"
    by blast
  have ec: "expected_child D u 0
            = (case expected_pair D u 0 of None \<Rightarrow> None
               | Some p \<Rightarrow> potential_child D p (child_name 0))"
    using pos r by (simp add: expected_child_def word_greater_zero_iff)
  show ?thesis
  proof (cases "expected_pair D u 0")
    case None
    with n npos t0 r0 k ec consistent_invalidate [OF c1] e1 k1 show ?thesis
      by (simp add: GetChildAtIndex_eq del: not_None_eq)
  next
    case (Some p)
    with n npos t0 r0 k ec c1 e1 k1 t1 show ?thesis
      by (simp add: GetChildAtIndex_eq del: not_None_eq)
  qed
qed

lemma consistent_cached:
  assumes c: "consistent D u s" and k: "m_iterators s k = Some it"
  shows "MapIterator_advance D it (Suc 0) = cursor_at D u (Suc k)"
proof -
  from c k obtain v where "k < unat (element_count D u)" and "cursor_at D u k = (Some v, it)"
    by (auto simp: consistent_def)
  then show ?thesis
    using cached_cursor_step [of D "m_root_node u" "unat (element_count D u)" k v it]
    by (simp add: cursor_at_def)
qed

lemma GetKeyValuePair_pos_consistent:
  assumes c: "consistent D u s" and t: "m_tree s \<noteq> None"
    and r: "m_root_node u = Some root"
    and md: "md = unat (element_count D u)" and idx: "0 < idx" "idx < md"
  shows "\<exists>s'. GetKeyValuePair D s idx md = (expected_pair D u idx, s')
              \<and> consistent D u s' \<and> (m_tree s' = None \<or> m_tree s' = m_tree s)
              \<and> (expected_pair D u 0 \<noteq> None \<longrightarrow> m_tree s' = m_tree s)"
proof -
  let ?E = "resolved_type D u" and ?K = "resolved_skip D u"
  let ?s1 = "s\<lparr>m_element_type := ?E\<rparr>"
  obtain h it' where cur: "cursor_at D u idx = (h, it')"
    by (cases "cursor_at D u idx")
  from c r have rs: "m_root_node s = m_root_node u"
    by (simp add: consistent_def)
  define chosen where "chosen =
    (case m_iterators s (idx - 1) of
       Some cached_iterator \<Rightarrow> (cached_iterator, 1)
     | None \<Rightarrow> (MapIterator_new (m_root_node s) md, idx))"
  have adv: "MapIterator_advance D (fst chosen) (snd chosen) = (h, it')"
  proof (cases "m_iterators s (idx - 1)")
    case None
    with cur rs md show ?thesis
      by (simp add: chosen_def cursor_at_def)
  next
    case (Some cached)
    from consistent_cached [OF c Some] idx(1) cur Some show ?thesis
      by (simp add: chosen_def)
  qed
  note g = GetDataType_consistent [OF c]
  have c1: "consistent D u ?s1"
    by (rule consistent_update_type [OF c])
  define s2 where "s2 =
    (if m_skip_size ?s1 = UINT32_MAX then snd (GetChildAtIndex D ?s1 0) else ?s1)"
  have unf: "GetKeyValuePair D s idx md =
     (case h of
        None \<Rightarrow> (None, s)
      | Some iterated_sp \<Rightarrow>
          if ?E = None then (None, ?s1)
          else if m_skip_size s2 = UINT32_MAX then (None, s2)
          else (case vo_GetSyntheticChildAtOffset D iterated_sp (unat (m_skip_size s2))
                       (m_element_type s2) of
                  None \<Rightarrow> (None, s2)
                | Some p \<Rightarrow>
                    (Some p, s2\<lparr>m_iterators := (m_iterators s2)(idx \<mapsto> it')\<rparr>)))"
    unfolding s2_def
    using adv g idx(1)
    by (subst GetKeyValuePair.simps)
       (auto simp: chosen_def split: option.splits prod.splits)
  show ?thesis
  proof (cases h)
    case None
    with unf cur c show ?thesis
      by (simp add: expected_pair_def)
  next
    case (Some iterated_sp)
    show ?thesis
    proof (cases "?E = None")
      case True
      with Some unf cur c1 show ?thesis
        by (simp add: expected_pair_def)
    next
      case E: False
      have s2: "consistent D u s2 \<and> (m_tree s2 = None \<or> m_tree s2 = m_tree s)
                \<and> m_element_type s2 = ?E \<and> m_skip_size s2 = ?K
                \<and> (expected_pair D u 0 \<noteq> None \<longrightarrow> m_tree s2 = m_tree s)"
      proof (cases "m_skip_size s = UINT32_MAX")
        case True
        from idx md have pos: "0 < element_count D u"
          by (simp add: word_greater_zero_iff unat_gt_0 [symmetric] del: unat_gt_0)
        from GetChildAtIndex_0_consistent [OF c1 _ r pos] t E
        show ?thesis
          using True by (auto simp: s2_def)
      next
        case False
        from c have "m_skip_size s = m_skip_size u \<or> m_skip_size s = ?K"
          by (simp add: consistent_def)
        with False resolved_skip_known [of u D] have "m_skip_size s = ?K"
          by auto
        with False c1 show ?thesis
          by (simp add: s2_def)
      qed
      have ep: "expected_pair D u idx =
                  (if ?K = UINT32_MAX then None
                   else vo_GetSyntheticChildAtOffset D iterated_sp (unat ?K) ?E)"
        using cur Some E idx(1) by (simp add: expected_pair_def del: not_None_eq)
      have c3: "consistent D u (s2\<lparr>m_iterators := (m_iterators s2)(idx \<mapsto> it')\<rparr>)"
        using consistent_update_cache [of D u s2 idx iterated_sp it'] s2 cur Some idx(2) md
        by simp
      show ?thesis
      proof (cases "?K = UINT32_MAX")
        case True
        with Some E unf ep s2 show ?thesis
          by (simp del: not_None_eq)
      next
        case K: False
        show ?thesis
        proof (cases "vo_GetSyntheticChildAtOffset D iterated_sp (unat ?K) ?E")
          case None
          with K Some E unf ep s2 show ?thesis
            by (simp del: not_None_eq)
        next
          case (Some p)
          with K \<open>h = Some iterated_sp\<close> E unf ep s2 c3 show ?thesis
            by (simp del: not_None_eq)
        qed
      qed
    qed
  qed
qed


subsection \<open>Any index\<close>

lemma GetChildAtIndex_consistent:
  assumes c: "consistent D u s"
  shows "\<exists>s'. GetChildAtIndex D s idx
                = (if m_tree s = None then None else expected_child D u idx, s')
              \<and> consistent D u s' \<and> (m_tree s' = None \<or> m_tree s' = m_tree s)
              \<and> (m_tree s \<noteq> None \<and> idx < element_count D u \<and> m_root_node u \<noteq> None
                   \<and> expected_pair D u (unat idx) = None \<longrightarrow> m_tree s' = None)
              \<and> (expected_pair D u (unat idx) \<noteq> None \<and> expected_pair D u 0 \<noteq> None
                   \<longrightarrow> m_tree s' = m_tree s)
              \<and> (m_tree s = None \<or> element_count D u \<le> idx \<longrightarrow> m_tree s' = m_tree s)"
proof -
  obtain n s0 where n: "CalculateNumChildren D s = (n, s0)"
    by (cases "CalculateNumChildren D s")
  note cn = CalculateNumChildren_consistent [OF c n]
  from cn(2) obtain cnt where s0: "s0 = s\<lparr>m_count := cnt\<rparr>" by blast
  then have t0: "m_tree s0 = m_tree s" by simp
  from cn(1) have r0: "m_root_node s0 = m_root_node u"
    by (simp add: consistent_def)
  show ?thesis
  proof (cases "m_tree s")
    case None
    with n t0 cn(1) show ?thesis
      by (simp add: GetChildAtIndex_eq)
  next
    case (Some tree)
    with cn(3) have n_eq: "n = element_count D u" by simp
    show ?thesis
    proof (cases "idx \<ge> n")
      case True
      with n t0 cn(1) n_eq Some show ?thesis
        by (auto simp: GetChildAtIndex_eq expected_child_def)
    next
      case small: False
      then have lt: "unat idx < unat n"
        by (simp add: word_less_nat_alt not_le)
      show ?thesis
      proof (cases "m_root_node u")
        case None
        with n t0 cn(1) n_eq Some r0 small show ?thesis
          by (simp add: GetChildAtIndex_eq expected_child_def)
      next
        case (Some root)
        have "\<exists>s1. GetKeyValuePair D s0 (unat idx) (unat n) = (expected_pair D u (unat idx), s1)
                \<and> consistent D u s1 \<and> (m_tree s1 = None \<or> m_tree s1 = m_tree s0)
                \<and> (expected_pair D u 0 \<noteq> None \<longrightarrow> m_tree s1 = m_tree s0)"
        proof (cases "unat idx = 0")
          case True
          from GetKeyValuePair_0_consistent [OF cn(1) Some, of "unat n"] n_eq lt True
          show ?thesis by auto
        next
          case False
          from GetKeyValuePair_pos_consistent [OF cn(1) _ Some, of "unat n" "unat idx"]
               n_eq lt False t0 \<open>m_tree s = Some tree\<close>
          show ?thesis by auto
        qed
        then obtain s1 where
          k: "GetKeyValuePair D s0 (unat idx) (unat n) = (expected_pair D u (unat idx), s1)"
          and c1: "consistent D u s1" and t1: "m_tree s1 = None \<or> m_tree s1 = m_tree s0"
          and t2: "expected_pair D u 0 \<noteq> None \<longrightarrow> m_tree s1 = m_tree s0"
          by blast
        have ec: "expected_child D u idx
                  = (case expected_pair D u (unat idx) of None \<Rightarrow> None
                     | Some p \<Rightarrow> potential_child D p (child_name idx))"
          using small n_eq Some by (simp add: expected_child_def)
        show ?thesis
        proof (cases "expected_pair D u (unat idx)")
          case None
          with n small t0 r0 Some \<open>m_tree s = Some tree\<close> k ec consistent_invalidate [OF c1]
               n_eq
          show ?thesis
            by (simp add: GetChildAtIndex_eq)
        next
          case (Some p)
          with n small t0 r0 \<open>m_root_node u = Some root\<close> \<open>m_tree s = Some tree\<close> k ec c1 t1 t2
               n_eq
          show ?thesis
            by (simp add: GetChildAtIndex_eq)
        qed
      qed
    qed
  qed
qed

subsection \<open>The states a front end goes through\<close>

lemma Update_fields:
  "m_count (Update D s) = UINT32_MAX" "m_iterators (Update D s) = Map.empty"
  "m_backend (Update D s) = m_backend s" "m_element_type (Update D s) = m_element_type s"
  "m_skip_size (Update D s) = m_skip_size s"
  "m_tree (Update D s) = vo_GetChildMemberWithName D (m_backend s) ''__tree_''"
  by (simp_all add: Update_def Let_def split: option.splits)

lemma consistent_Update: "consistent D (Update D s) (Update D s)"
  by (simp add: consistent_def Update_fields)

lemma reachable_consistent: "reachable D u s \<Longrightarrow> consistent D u s"
proof (induction rule: reachable.induct)
  case (refreshed s0)
  show ?case by (rule consistent_Update)
next
  case (asked u s idx)
  from GetChildAtIndex_consistent [OF asked.IH, of idx] show ?case
    by auto
next
  case (counted u s)
  then show ?case
    using CalculateNumChildren_consistent(1) [of D u s]
    by (cases "CalculateNumChildren D s") auto
qed

lemma reachable_start: "reachable D u s \<Longrightarrow> reachable D u u"
  by (induction rule: reachable.induct) (auto intro: reachable.refreshed)

lemma reachable_child:
  "reachable D u s \<Longrightarrow> m_tree s \<noteq> None \<Longrightarrow> fst (GetChildAtIndex D s idx) = expected_child D u idx"
  using GetChildAtIndex_consistent [OF reachable_consistent, of D u s idx]
  by auto

lemma reachable_tree:
  "reachable D u s \<Longrightarrow> m_tree s \<noteq> None \<Longrightarrow> m_tree u = m_tree s"
  using consistent_tree [OF reachable_consistent, of D u s] by simp

section \<open>Walking a well-formed tree\<close>

lemma points_to_value [simp]: "points_to D h a \<Longrightarrow> MapEntry_value D (Some h) = a"
  by (simp add: points_to_def MapEntry_value_def GetValueAsUnsigned_def)

lemma points_to_null [simp]: "points_to D h a \<Longrightarrow> MapEntry_null D (Some h) \<longleftrightarrow> a = 0"
  by (simp add: MapEntry_null_def)

lemma points_to_error [simp]: "points_to D h a \<Longrightarrow> \<not> MapEntry_error D (Some h)"
  by (simp add: points_to_def MapEntry_error_def)

lemma readable_left:
  "readable D L R P A \<Longrightarrow> points_to D h a \<Longrightarrow> a \<in> A \<Longrightarrow>
   \<exists>l. MapEntry_left D (Some h) = Some l \<and> points_to D l (L a)"
  unfolding readable_def by blast

lemma readable_right:
  "readable D L R P A \<Longrightarrow> points_to D h a \<Longrightarrow> a \<in> A \<Longrightarrow>
   \<exists>r. MapEntry_right D (Some h) = Some r \<and> points_to D r (R a)"
  unfolding readable_def by blast

lemma readable_parent:
  "readable D L R P A \<Longrightarrow> points_to D h a \<Longrightarrow> a \<in> A \<Longrightarrow>
   \<exists>p. MapEntry_parent D (Some h) = Some p \<and> points_to D p (P a)"
  unfolding readable_def by blast

lemma root_of_in: "t \<noteq> Leaf \<Longrightarrow> root_of t \<in> set_tree t"
  by (cases t) auto

lemma root_of_cases: "root_of t = 0 \<or> root_of t \<in> set_tree t"
  by (cases t) auto

lemma rspine_less: "t \<noteq> Leaf \<Longrightarrow> rspine t < size t"
  by (induction t) auto

lemma inorder_not_Nil: "t \<noteq> Leaf \<Longrightarrow> inorder t \<noteq> []"
  by (cases t) auto

lemma rightmost_has_no_right:
  "shaped L R P t p \<Longrightarrow> t \<noteq> Leaf \<Longrightarrow> R (last (inorder t)) = 0"
proof (induction t arbitrary: p)
  case Leaf
  then show ?case by simp
next
  case (Node l a r)
  show ?case
  proof (cases "r = Leaf")
    case True
    with Node.prems show ?thesis by simp
  next
    case False
    with Node.IH(2) [of a] Node.prems inorder_not_Nil [OF False] show ?thesis
      by simp
  qed
qed

subsection \<open>The descent reaches the leftmost node\<close>

lemma tree_min_loop_leftmost:
  assumes "readable D L R P A"
  shows "shaped L R P (Node l a r) p \<Longrightarrow> set_tree (Node l a r) \<subseteq> A \<Longrightarrow>
         0 \<notin> set_tree (Node l a r) \<Longrightarrow> points_to D h a \<Longrightarrow> steps + size l \<le> d \<Longrightarrow>
         \<exists>h' st. tree_min_loop D d err steps (Some h) (MapEntry_left D (Some h))
                    = (st, Some h', err)
                  \<and> points_to D h' (hd (inorder (Node l a r)))"
proof (induction l arbitrary: a r p h steps)
  case Leaf
  from readable_left [OF assms Leaf.prems(4)] Leaf.prems
  obtain hl where "MapEntry_left D (Some h) = Some hl" "points_to D hl 0"
    by auto
  with Leaf.prems(4) show ?case
    by (subst tree_min_loop.simps) simp
next
  case (Node ll b lr)
  from readable_left [OF assms Node.prems(4)] Node.prems
  obtain hl where hl: "MapEntry_left D (Some h) = Some hl" "points_to D hl b"
    by auto
  from Node.prems have b0: "b \<noteq> 0" by auto
  from Node.prems have st: "\<not> Suc steps > d" "Suc steps + size ll \<le> d" by auto
  from Node.prems have sh: "shaped L R P (Node ll b lr) a" "set_tree (Node ll b lr) \<subseteq> A"
    "0 \<notin> set_tree (Node ll b lr)"
    by auto
  from Node.IH(1) [OF sh hl(2) st(2)]
  obtain h' st' where r: "tree_min_loop D d err (Suc steps) (Some hl) (MapEntry_left D (Some hl))
                    = (st', Some h', err)"
    and p: "points_to D h' (hd (inorder (Node ll b lr)))"
    by blast
  have "tree_min_loop D d err steps (Some h) (MapEntry_left D (Some h)) = (st', Some h', err)"
    using hl b0 st(1) r
    by (subst tree_min_loop.simps) (simp add: Let_def)
  with p show ?case
    by (auto simp: hd_append)
qed

subsection \<open>The upward walk climbs the right spine\<close>

lemma next_loop_right_spine:
  assumes "readable D L R P A"
  shows "shaped L R P (Node l a r) p \<Longrightarrow> set_tree (Node l a r) \<subseteq> A \<Longrightarrow>
         distinct (inorder (Node l a r)) \<Longrightarrow> 0 \<notin> set_tree (Node l a r) \<Longrightarrow>
         points_to D hx (last (inorder (Node l a r))) \<Longrightarrow>
         steps + rspine (Node l a r) \<le> m_max_depth it \<Longrightarrow> m_entry it = Some hx \<Longrightarrow>
         \<exists>ha. points_to D ha a
               \<and> next_loop D steps it
                   = next_loop D (steps + rspine (Node l a r)) (it\<lparr>m_entry := Some ha\<rparr>)"
proof (induction r arbitrary: l a p)
  case Leaf
  then have e: "it\<lparr>m_entry := Some hx\<rparr> = it" by simp
  from Leaf.prems have pa: "points_to D hx a" by simp
  show ?case
    using pa by (intro exI [of _ hx]) (simp add: e)
next
  case (Node rl b rr)
  let ?r = "Node rl b rr"
  from Node.prems have sh: "shaped L R P ?r a" "set_tree ?r \<subseteq> A" "distinct (inorder ?r)"
    "0 \<notin> set_tree ?r" "points_to D hx (last (inorder ?r))"
    "steps + rspine ?r \<le> m_max_depth it"
    by auto
  from Node.IH(2) [OF sh Node.prems(7)]
  obtain hb where hb: "points_to D hb b"
    and eq: "next_loop D steps it = next_loop D (steps + rspine ?r) (it\<lparr>m_entry := Some hb\<rparr>)"
    by blast
  from Node.prems have bA: "b \<in> A" and b0: "b \<noteq> 0" and aA: "a \<in> A"
    by auto
  from readable_parent [OF assms hb bA] Node.prems(1)
  obtain hp where hp: "MapEntry_parent D (Some hb) = Some hp" "points_to D hp a"
    by auto
  from readable_left [OF assms hp(2) aA] Node.prems(1)
  obtain hl where hl: "MapEntry_left D (Some hp) = Some hl" "points_to D hl (root_of l)"
    by auto
  have "b \<noteq> root_of l"
    using root_of_cases [of l] b0 Node.prems(3) by auto
  with hb hp hl b0 have nl: "\<not> is_left_child D (Some hb)"
    by (simp add: is_left_child_def)
  from Node.prems have le: "\<not> Suc (steps + rspine ?r) > m_max_depth it"
    by simp
  have "next_loop D (steps + rspine ?r) (it\<lparr>m_entry := Some hb\<rparr>)
          = next_loop D (Suc (steps + rspine ?r)) (it\<lparr>m_entry := Some hp\<rparr>)"
    using nl hb hp le
    by (subst next_loop.simps) (simp add: Let_def)
  with eq hp(2) show ?case
    by (intro exI [of _ hp]) simp
qed


subsection \<open>One step reaches the in-order successor\<close>

lemma next_successor:
  assumes rd: "readable D L R P A"
  shows "shaped L R P t p \<Longrightarrow> set_tree t \<subseteq> A \<Longrightarrow> distinct (inorder t) \<Longrightarrow>
         0 \<notin> set_tree t \<Longrightarrow> Suc i < size t \<Longrightarrow> points_to D hx (inorder t ! i) \<Longrightarrow>
         size t \<le> m_max_depth it \<Longrightarrow> m_entry it = Some hx \<Longrightarrow>
         \<exists>hy. points_to D hy (inorder t ! Suc i)
               \<and> MapIterator_next D it = it\<lparr>m_entry := Some hy\<rparr>"
proof (induction t arbitrary: p i)
  case Leaf
  then show ?case by simp
next
  case (Node l a r)
  let ?n = "size l"
  have len: "length (inorder l) = ?n" by simp
  from Node.prems have shl: "shaped L R P l a" "set_tree l \<subseteq> A" "distinct (inorder l)"
    "0 \<notin> set_tree l" "size l \<le> m_max_depth it"
    and shr: "shaped L R P r a" "set_tree r \<subseteq> A" "distinct (inorder r)"
    "0 \<notin> set_tree r" "size r \<le> m_max_depth it"
    and aA: "a \<in> A" and a0: "a \<noteq> 0"
    and La: "L a = root_of l" and Ra: "R a = root_of r"
    by auto
  consider (left) "Suc i < ?n" | (up) "Suc i = ?n" | (down) "i = ?n" | (right) "?n < i"
    by linarith
  then show ?case
  proof cases
    case left
    with Node.prems(6) have "points_to D hx (inorder l ! i)"
      by (simp add: nth_append)
    from Node.IH(1) [OF shl(1-4) left this shl(5) Node.prems(8)] left
    show ?thesis by (simp add: nth_append)
  next
    case up
    then have lne: "l \<noteq> Leaf" by auto
    then obtain ll b lr where l: "l = Node ll b lr" by (cases l) auto
    from up have i: "i = ?n - 1" by simp
    from up Node.prems(6) have "points_to D hx (inorder l ! i)"
      by (simp add: nth_append)
    then have x: "points_to D hx (last (inorder l))"
      using last_conv_nth [OF inorder_not_Nil [OF lne]] i
      by simp
    have xin: "last (inorder l) \<in> set_tree l"
      using last_in_set [OF inorder_not_Nil [OF lne]] by simp
    with shl have xA: "last (inorder l) \<in> A" and x0: "last (inorder l) \<noteq> 0"
      by auto
    from rightmost_has_no_right [OF shl(1) lne] have "R (last (inorder l)) = 0" .
    with readable_right [OF rd x xA]
    obtain hr where hr: "MapEntry_right D (Some hx) = Some hr" "points_to D hr 0"
      by auto
    from rspine_less [OF lne] Node.prems(7) have bud: "0 + rspine (Node ll b lr) \<le> m_max_depth it"
      by (simp add: l)
    from next_loop_right_spine [OF rd, of ll b lr a hx 0 it] shl x bud Node.prems(8)
    obtain hb where hb: "points_to D hb b"
      and eq: "next_loop D 0 it = next_loop D (rspine l) (it\<lparr>m_entry := Some hb\<rparr>)"
      by (auto simp: l)
    from shl l have bA: "b \<in> A" and b0: "b \<noteq> 0" and Pb: "P b = a"
      by auto
    from readable_parent [OF rd hb bA] Pb
    obtain hp where hp: "MapEntry_parent D (Some hb) = Some hp" "points_to D hp a"
      by auto
    from readable_left [OF rd hp(2) aA] La l
    obtain hl where hl: "MapEntry_left D (Some hp) = Some hl" "points_to D hl b"
      by auto
    from hb hp hl b0 have "is_left_child D (Some hb)"
      by (simp add: is_left_child_def)
    then have "next_loop D (rspine l) (it\<lparr>m_entry := Some hb\<rparr>)
                 = (rspine l, False, it\<lparr>m_entry := Some hb\<rparr>)"
      by (subst next_loop.simps) simp
    with eq have "next_loop D 0 it = (rspine l, False, it\<lparr>m_entry := Some hb\<rparr>)"
      by simp
    with Node.prems(8) x x0 hr hp have "MapIterator_next D it = it\<lparr>m_entry := Some hp\<rparr>"
      by (simp add: MapIterator_next_def)
    moreover from up have "inorder (Node l a r) ! Suc i = a"
      by (simp add: nth_append)
    ultimately show ?thesis
      using hp(2) by auto
  next
    case down
    with Node.prems(5) have rne: "r \<noteq> Leaf" by auto
    then obtain rl c rr where r: "r = Node rl c rr" by (cases r) auto
    from down Node.prems(6) have x: "points_to D hx a"
      by (simp add: nth_append)
    from shr r have c0: "c \<noteq> 0" by auto
    from readable_right [OF rd x aA] Ra r
    obtain hr where hr: "MapEntry_right D (Some hx) = Some hr" "points_to D hr c"
      by auto
    from shr(5) r have "0 + size rl \<le> m_max_depth it" by simp
    from tree_min_loop_leftmost [OF rd _ _ _ hr(2) this, of rr a "m_error it"] shr r
    obtain h' st where tm: "tree_min_loop D (m_max_depth it) (m_error it) 0 (Some hr)
                              (MapEntry_left D (Some hr)) = (st, Some h', m_error it)"
      and h': "points_to D h' (hd (inorder r))"
      by (auto simp: r)
    from Node.prems(8) x a0 hr c0 tm have "MapIterator_next D it = it\<lparr>m_entry := Some h'\<rparr>"
      by (simp add: MapIterator_next_def tree_min_def)
    moreover from down have "inorder (Node l a r) ! Suc i = hd (inorder r)"
      using inorder_not_Nil [OF rne] by (simp add: nth_append hd_conv_nth)
    ultimately show ?thesis
      using h' by auto
  next
    case right
    then obtain j where j: "i = Suc (?n + j)"
      by (metis add_Suc_right less_iff_Suc_add)
    with Node.prems(5,6) have "Suc j < size r" "points_to D hx (inorder r ! j)"
      by (simp_all add: nth_append)
    from Node.IH(2) [OF shr(1-4) this shr(5) Node.prems(8)] j
    show ?thesis by (simp add: nth_append)
  qed
qed

subsection \<open>Advancing reaches the element of the index\<close>

lemma advance_loop_inorder:
  assumes rd: "readable D L R P (set_tree t)" and sh: "shaped L R P t p"
    and di: "distinct (inorder t)" and nz: "0 \<notin> set_tree t"
  shows "points_to D hx (inorder t ! j) \<Longrightarrow> j + count < size t \<Longrightarrow> steps + count \<le> m_max_depth it \<Longrightarrow>
         size t \<le> m_max_depth it \<Longrightarrow> m_entry it = Some hx \<Longrightarrow> \<not> m_error it \<Longrightarrow>
         \<exists>hy. points_to D hy (inorder t ! (j + count))
               \<and> advance_loop D count steps it = (steps + count, Some hy, it\<lparr>m_entry := Some hy\<rparr>)"
proof (induction count arbitrary: j steps hx it)
  case 0
  then have "it\<lparr>m_entry := Some hx\<rparr> = it" by simp
  with 0 show ?case
    by (intro exI [of _ hx]) simp
next
  case (Suc count)
  from Suc.prems have "Suc j < size t" by simp
  from next_successor [OF rd sh _ di nz this Suc.prems(1) Suc.prems(4,5)]
  obtain hy where hy: "points_to D hy (inorder t ! Suc j)"
    and nx: "MapIterator_next D it = it\<lparr>m_entry := Some hy\<rparr>"
    by auto
  from Suc.prems have "inorder t ! Suc j \<in> set_tree t"
    using nth_mem [of "Suc j" "inorder t"] by simp
  with nz have y0: "inorder t ! Suc j \<noteq> 0" by auto
  let ?it = "it\<lparr>m_entry := Some hy\<rparr>"
  from Suc.prems have pre: "Suc j + count < size t" "Suc steps + count \<le> m_max_depth ?it"
    "size t \<le> m_max_depth ?it" "m_entry ?it = Some hy" "\<not> m_error ?it"
    by simp_all
  from Suc.IH [OF hy pre]
  obtain hz where hz: "points_to D hz (inorder t ! (Suc j + count))"
    and ad: "advance_loop D count (Suc steps) ?it
               = (Suc steps + count, Some hz, ?it\<lparr>m_entry := Some hz\<rparr>)"
    by blast
  have "advance_loop D (Suc count) steps it = (steps + Suc count, Some hz, it\<lparr>m_entry := Some hz\<rparr>)"
    using nx hy y0 Suc.prems ad
    by (simp add: Let_def)
  with hz show ?case
    by (intro exI [of _ hz]) simp
qed

section \<open>The children of a well-formed map\<close>

lemma well_formed_count:
  assumes "well_formed_map D u L R P t e key_of node_key"
  shows "element_count D u = of_nat (size t)" and "unat (element_count D u) = size t"
proof -
  from assms have v: "size_value D u = Some (of_nat (size t))" and b: "size t < 2 ^ 32"
    by (simp_all add: well_formed_map_def)
  have "(ucast (of_nat (size t) :: 64 word) :: 32 word) = of_nat (size t)"
    by transfer (simp add: take_bit_of_nat min_def)
  with v show "element_count D u = of_nat (size t)"
    by (simp add: element_count_def)
  with b show "unat (element_count D u) = size t"
    by (simp add: unat_of_nat)
qed

lemma well_formed_cursor:
  assumes w: "well_formed_map D u L R P t e key_of node_key" and i: "i < size t"
  shows "\<exists>h it. cursor_at D u i = (Some h, it) \<and> points_to D h (inorder t ! i)"
proof -
  from i have ne: "t \<noteq> Leaf" by auto
  with w obtain h0 where h0: "m_root_node u = Some h0" "points_to D h0 (hd (inorder t))"
    by (auto simp: well_formed_map_def)
  from w have rd: "readable D L R P (set_tree t)" and sh: "shaped L R P t e"
    and di: "distinct (inorder t)" and nz: "0 \<notin> set_tree t"
    by (simp_all add: well_formed_map_def)
  let ?it = "MapIterator_new (Some h0) (size t)"
  from h0(2) ne have p0: "points_to D h0 (inorder t ! 0)"
    by (simp add: hd_conv_nth inorder_not_Nil)
  from advance_loop_inorder [OF rd sh di nz p0, of i 0 ?it] i
  obtain hy where "points_to D hy (inorder t ! i)"
    and "advance_loop D i 0 ?it = (i, Some hy, ?it\<lparr>m_entry := Some hy\<rparr>)"
    by (auto simp: MapIterator_new_def)
  then show ?thesis
    using h0(1) well_formed_count(2) [OF w]
    by (simp add: cursor_at_def MapIterator_advance_def MapIterator_new_def)
qed

lemma well_formed_pair:
  assumes w: "well_formed_map D u L R P t e key_of node_key" and i: "i < size t"
  shows "\<exists>p. expected_pair D u i = Some p
             \<and> (\<forall>name. \<exists>r. potential_child D p name = Some r
                              \<and> key_of r = node_key (inorder t ! i))"
proof -
  from well_formed_cursor [OF w i]
  obtain h it where c: "cursor_at D u i = (Some h, it)" and h: "points_to D h (inorder t ! i)"
    by blast
  from w have E: "resolved_type D u \<noteq> None" and K: "resolved_skip D u \<noteq> UINT32_MAX"
    by (simp_all add: well_formed_map_def)
  show ?thesis
  proof (cases "i = 0")
    case True
    from i have ne: "t \<noteq> Leaf" by auto
    with w obtain h0 d where h0: "m_root_node u = Some h0"
      and d: "vo_Dereference D h0 = (Some d, False)"
      and pr: "pair_readable D d (resolved_skip D u) (resolved_type D u) key_of
                 (node_key (hd (inorder t)))"
      by (auto simp: well_formed_map_def)
    from c True h0 have "h = h0"
      by (simp add: cursor_at_0)
    with True c E d pr ne show ?thesis
      by (auto simp: expected_pair_def pair_readable_def hd_conv_nth inorder_not_Nil)
  next
    case False
    from i have "inorder t ! i \<in> set_tree t"
      using nth_mem [of i "inorder t"] by simp
    with w h have "pair_readable D h (resolved_skip D u) (resolved_type D u) key_of
                     (node_key (inorder t ! i))"
      unfolding well_formed_map_def by blast
    with False c E K show ?thesis
      by (auto simp: expected_pair_def pair_readable_def)
  qed
qed

lemma well_formed_child:
  assumes w: "well_formed_map D u L R P t e key_of node_key" and i: "i < size t"
  shows "\<exists>r. expected_child D u (of_nat i) = Some r \<and> key_of r = node_key (inorder t ! i)"
proof -
  from w have b: "size t < 2 ^ 32"
    by (simp add: well_formed_map_def)
  with i have u: "unat (of_nat i :: 32 word) = i"
    by (simp add: unat_of_nat)
  with i well_formed_count(2) [OF w] have lt: "\<not> element_count D u \<le> (of_nat i :: 32 word)"
    by (simp add: word_le_nat_alt)
  from i have ne: "t \<noteq> Leaf" by auto
  with w have r: "m_root_node u \<noteq> None"
    by (auto simp: well_formed_map_def)
  from well_formed_pair [OF w i] u lt r show ?thesis
    by (auto simp: expected_child_def)
qed

lemma well_formed_not_invalidated:
  "reachable D u s \<Longrightarrow> well_formed_map D u L R P t e key_of node_key \<Longrightarrow> m_tree s = m_tree u"
proof (induction rule: reachable.induct)
  case (refreshed s0)
  show ?case by simp
next
  case (asked u s idx)
  note w = asked.prems
  note c = reachable_consistent [OF asked.hyps]
  from GetChildAtIndex_consistent [OF c, of idx]
  obtain s' where g: "GetChildAtIndex D s idx
                        = (if m_tree s = None then None else expected_child D u idx, s')"
    and ok: "expected_pair D u (unat idx) \<noteq> None \<and> expected_pair D u 0 \<noteq> None
               \<longrightarrow> m_tree s' = m_tree s"
    and out: "m_tree s = None \<or> element_count D u \<le> idx \<longrightarrow> m_tree s' = m_tree s"
    by blast
  have "m_tree s' = m_tree s"
  proof (cases "element_count D u \<le> idx")
    case True
    with out show ?thesis by simp
  next
    case False
    with well_formed_count(2) [OF w] have i: "unat idx < size t"
      by (simp add: word_le_nat_alt)
    then have "0 < size t" by simp
    from well_formed_pair [OF w i] well_formed_pair [OF w this] ok
    show ?thesis by auto
  qed
  with g asked.IH [OF w] show ?case
    by simp
next
  case (counted u s)
  from CalculateNumChildren_frame [of D s] counted.IH [OF counted.prems]
  show ?case
    by (cases "CalculateNumChildren D s") auto
qed

lemma well_formed_element_at:
  assumes w: "well_formed_map D u L R P t e key_of node_key" and r: "reachable D u s"
  shows "fst (CalculateNumChildren D s) = of_nat (size t)"
    and "i < size t \<Longrightarrow>
         \<exists>r. fst (GetChildAtIndex D s (of_nat i)) = Some r \<and> key_of r = node_key (inorder t ! i)"
    and "size t \<le> unat idx \<Longrightarrow> fst (GetChildAtIndex D s idx) = None"
proof -
  from w have "m_tree u \<noteq> None"
    by (simp add: well_formed_map_def)
  with well_formed_not_invalidated [OF r w] have t: "m_tree s \<noteq> None"
    by simp
  note c = reachable_consistent [OF r]
  show n: "fst (CalculateNumChildren D s) = of_nat (size t)"
    using CalculateNumChildren_consistent(3) [OF c _ t] well_formed_count(1) [OF w]
    by (cases "CalculateNumChildren D s") simp
  show "\<exists>r. fst (GetChildAtIndex D s (of_nat i)) = Some r \<and> key_of r = node_key (inorder t ! i)"
    if "i < size t"
    using reachable_child [OF r t, of "of_nat i"] well_formed_child [OF w that]
    by simp
  show "fst (GetChildAtIndex D s idx) = None" if "size t \<le> unat idx"
  proof -
    from that well_formed_count(2) [OF w] have "element_count D u \<le> idx"
      by (simp add: word_le_nat_alt)
    then have "expected_child D u idx = None"
      by (simp add: expected_child_def)
    with reachable_child [OF r t, of idx] show ?thesis by simp
  qed
qed

lemma consume_reachable:
  "reachable D u s \<Longrightarrow> reachable D u (snd (consume D s idxs))"
proof (induction idxs arbitrary: s)
  case Nil
  then show ?case by simp
next
  case (Cons idx idxs)
  from reachable.asked [OF Cons.prems, of idx] Cons.IH [of "snd (GetChildAtIndex D s idx)"]
  show ?case
    by (simp add: split_beta)
qed

lemma well_formed_consume:
  assumes w: "well_formed_map D u L R P t e key_of node_key"
  shows "reachable D u s \<Longrightarrow> \<forall>i \<in> set is. i < size t \<Longrightarrow>
         map (map_option key_of) (fst (consume D s (map of_nat is)))
           = map (\<lambda>i. Some (node_key (inorder t ! i))) is"
proof (induction "is" arbitrary: s)
  case Nil
  then show ?case by simp
next
  case (Cons i "is")
  from well_formed_element_at(2) [OF w Cons.prems(1), of i] Cons.prems(2)
  obtain r where r: "fst (GetChildAtIndex D s (of_nat i)) = Some r"
    "key_of r = node_key (inorder t ! i)"
    by auto
  from Cons.IH [OF reachable.asked [OF Cons.prems(1), of "of_nat i"]] Cons.prems(2)
  have "map (map_option key_of) (fst (consume D (snd (GetChildAtIndex D s (of_nat i)))
                                        (map of_nat is)))
          = map (\<lambda>i. Some (node_key (inorder t ! i))) is"
    by simp
  with r show ?case
    by (simp add: split_beta)
qed


section \<open>The sample map is well formed\<close>

lemma map3_points_to: "points_to map3 h a \<longleftrightarrow> h = Ptr a \<or> (h = SizeV \<and> a = 3)"
  by (cases h) (auto simp: points_to_def map3_def process_debugger_def)

lemma map3_readable:
  "readable map3 map3_left map3_right map3_parent (set_tree map3_tree)"
  unfolding readable_def map3_points_to
  by (auto simp: map3_tree_def map3_left_def map3_right_def map3_parent_def cell_def
        MapEntry_left_def MapEntry_right_def MapEntry_parent_def
        map3_def process_debugger_def map3_memory_def)

lemma map3_view_fields:
  "m_tree map3_view = Some TreeV" "m_root_node map3_view = Some (Ptr 0x3000)"
  "m_element_type map3_view = None" "m_skip_size map3_view = UINT32_MAX"
  "m_backend map3_view = Backend"
  by (simp_all add: map3_view_def LibcxxStdMapSyntheticFrontEnd_new_def Update_def Let_def
        map3_def process_debugger_def)

lemma map3_resolved_type: "resolved_type map3 map3_view = Some PairT"
  by (simp add: resolved_type_eq map3_view_fields resolve_element_type_def)
     (simp add: map3_def process_debugger_def map3_memory_def)

lemma map3_resolved_skip: "resolved_skip map3 map3_view = 32"
proof -
  have "vo_Dereference map3 (Ptr 0x3000) = (Some (NodeV 0x3000), False)"
    by (simp add: map3_def process_debugger_def map3_memory_def)
  from resolved_skip_eq [OF map3_view_fields(2) this] show ?thesis
    by (simp add: skip_from_def map3_view_fields map3_resolved_type)
       (simp add: map3_def process_debugger_def)
qed

lemma map3_potential_child:
  "potential_child map3 (PairV a) name = Some (CloneV (PairV a) name)"
  by (simp add: potential_child_def map3_def process_debugger_def)

lemma map3_pair:
  "vo_GetSyntheticChildAtOffset map3 (Ptr a) (unat (32 :: 32 word)) (Some PairT)
     = Some (PairV (a + 32))"
  "vo_GetSyntheticChildAtOffset map3 (NodeV a) (unat (32 :: 32 word)) (Some PairT)
     = Some (PairV (a + 32))"
  by (simp_all add: map3_def process_debugger_def)

lemma map3_pair_readable:
  "pair_readable map3 (Ptr a) 32 (Some PairT) map3_key_of (map3_node_key a)"
  "pair_readable map3 (NodeV a) 32 (Some PairT) map3_key_of (map3_node_key a)"
  unfolding pair_readable_def map3_pair
  by (simp_all add: map3_potential_child map3_key_of_def map3_node_key_def)

lemma map3_well_formed:
  "well_formed_map map3 map3_view map3_left map3_right map3_parent map3_tree 0x1000
     map3_key_of map3_node_key"
proof -
  have sz: "size_value map3 map3_view = Some (of_nat (size map3_tree))"
    by (simp add: size_value_def size_field_def map3_view_fields map3_tree_def)
       (simp add: map3_def process_debugger_def GetValueAsUnsigned_def)
  have sh: "shaped map3_left map3_right map3_parent map3_tree 0x1000"
    by (simp add: map3_tree_def map3_left_def map3_right_def map3_parent_def cell_def
          map3_memory_def)
  have d: "vo_Dereference map3 (Ptr 0x3000) = (Some (NodeV 0x3000), False)"
    by (simp add: map3_def process_debugger_def map3_memory_def)
  have first: "hd (inorder map3_tree) = 0x3000" "map3_tree \<noteq> Leaf"
    by (simp_all add: map3_tree_def)
  have pay: "\<forall>h a. points_to map3 h a \<and> a \<in> set_tree map3_tree \<longrightarrow>
               pair_readable map3 h 32 (Some PairT) map3_key_of (map3_node_key a)"
    unfolding map3_points_to
    by (auto simp: map3_pair_readable map3_tree_def)
  show ?thesis
    unfolding well_formed_map_def map3_resolved_type map3_resolved_skip
    using sz sh d first pay map3_readable
    by (simp add: map3_view_fields map3_points_to map3_pair_readable UINT32_MAX_def)
       (simp add: map3_tree_def)
qed

section \<open>Claims about the front end\<close>

lemma reachable_new: "reachable D (LibcxxStdMapSyntheticFrontEnd_new D v) (LibcxxStdMapSyntheticFrontEnd_new D v)"
  unfolding LibcxxStdMapSyntheticFrontEnd_new_def by (rule reachable.refreshed)

lemma advance_loop_fail_mono:
  "fst (snd (advance_loop D k st it)) = None \<Longrightarrow> fst (snd (advance_loop D (k + m) st it)) = None"
proof (induction k arbitrary: st it)
  case 0
  then have e: "m_entry it = None"
    by simp
  then have "MapEntry_null D (m_entry it)"
    by (simp add: MapEntry_null_def MapEntry_value_def)
  with e show ?case
    by (cases m) (simp_all add: MapIterator_next_def Let_def)
next
  case (Suc k)
  then show ?case
    by (auto simp: Let_def split: if_splits)
qed

lemma advance_fail_mono:
  "fst (MapIterator_advance D it k) = None \<Longrightarrow> k \<le> k' \<Longrightarrow> fst (MapIterator_advance D it k') = None"
  using advance_loop_fail_mono [of D k 0 it "k' - k"]
  by (auto simp: MapIterator_advance_def split_beta)

text \<open>
  Claim C7, as amended. In every state a front end reaches after \<^verbatim>\<open>Update()\<close> and in which
  the tree pointer is not cleared: for an index above 0, the cursor cached for the index
  before it, advanced by one step, gives the same pointer and the same cursor as a fresh
  cursor at \<open>m_root_node\<close> advanced by the index with the element count as its budget; and
  \<^verbatim>\<open>GetChildAtIndex\<close> returns for every index the child it returns when that index is
  the first one asked after \<^verbatim>\<open>Update()\<close>, whatever was asked before.

  As stated, without the condition on the tree pointer, the claim fails: a query that
  fails clears the tree pointer, so on a tree that cannot be walked up to its last
  element, asking for the last index first leaves index 0 absent, while asking for index
  0 first returns its pair.
\<close>

theorem cached_cursor_equals_fresh_cursor:
  assumes "reachable D u s" and "m_tree s \<noteq> None"
  shows "(0 < idx \<longrightarrow> m_iterators s (idx - 1) = Some c \<longrightarrow>
            MapIterator_advance D c 1
            = MapIterator_advance D
                (MapIterator_new (m_root_node s) (unat (fst (CalculateNumChildren D s)))) idx)
         \<and> fst (GetChildAtIndex D s i) = fst (GetChildAtIndex D u i)"
proof -
  note c = reachable_consistent [OF assms(1)]
  have n: "fst (CalculateNumChildren D s) = element_count D u"
    using CalculateNumChildren_consistent(3) [OF c _ assms(2)]
    by (cases "CalculateNumChildren D s") simp
  from c have r: "m_root_node s = m_root_node u"
    by (simp add: consistent_def)
  have "MapIterator_advance D c 1
          = MapIterator_advance D (MapIterator_new (m_root_node s) (unat (element_count D u))) idx"
    if "0 < idx" "m_iterators s (idx - 1) = Some c"
    using consistent_cached [OF c that(2)] that(1) r
    by (simp add: cursor_at_def)
  moreover have "fst (GetChildAtIndex D s i) = fst (GetChildAtIndex D u i)"
    using reachable_child [OF assms] reachable_child [OF reachable_start [OF assms(1)], of i]
          reachable_tree [OF assms]  assms(2)
    by simp
  ultimately show ?thesis
    using n by simp
qed

theorem cached_cursor_equals_fresh_cursor_witness:
  "reachable map3 map3_view map3_asked0 \<and> m_tree map3_asked0 \<noteq> None
   \<and> m_iterators map3_asked0 0 = Some (MapIterator_new (Some (Ptr 0x3000)) 3)
   \<and> MapIterator_advance map3 (MapIterator_new (Some (Ptr 0x3000)) 3) 1
      = MapIterator_advance map3
          (MapIterator_new (m_root_node map3_asked0)
             (unat (fst (CalculateNumChildren map3 map3_asked0)))) 1
   \<and> fst (GetChildAtIndex map3 map3_asked0 2) = fst (GetChildAtIndex map3 map3_view 2)"
proof -
  have a: "reachable map3 map3_view map3_asked0"
    unfolding map3_asked0_def map3_view_def
    by (intro reachable.asked reachable_new)
  have b: "m_tree map3_asked0 \<noteq> None"
    by code_simp
  have c: "m_iterators map3_asked0 0 = Some (MapIterator_new (Some (Ptr 0x3000)) 3)"
    by code_simp
  from cached_cursor_equals_fresh_cursor [OF a b, of 1 "MapIterator_new (Some (Ptr 0x3000)) 3" 2] c
  show ?thesis
    using a b by simp
qed

theorem random_access_after_failure_counterexample:
  "fst (GetChildAtIndex torn2 torn_view 0) = Some (CloneV (PairV 0x3020) ''[0]'')
   \<and> fst (GetChildAtIndex torn2 torn_view 1) = None
   \<and> fst (GetChildAtIndex torn2 (snd (GetChildAtIndex torn2 torn_view 1)) 0) = None"
  by code_simp

text \<open>
  Claim C9. In a state a front end reaches after \<^verbatim>\<open>Update()\<close>, if \<^verbatim>\<open>GetChildAtIndex(idx)\<close>
  returns \<open>r\<close> and leaves the tree pointer not cleared, then the same call on the state it
  leaves returns \<open>r\<close> again, and so does the call on every state reached since that
  \<^verbatim>\<open>Update()\<close> whose tree pointer is not cleared.
\<close>

theorem repeated_query_returns_same_child:
  assumes "reachable D u s" and "GetChildAtIndex D s idx = (r, s1)" and "m_tree s1 \<noteq> None"
  shows "fst (GetChildAtIndex D s1 idx) = r
         \<and> (\<forall>s2. reachable D u s2 \<and> m_tree s2 \<noteq> None \<longrightarrow> fst (GetChildAtIndex D s2 idx) = r)"
proof -
  note c = reachable_consistent [OF assms(1)]
  from GetChildAtIndex_consistent [OF c, of idx] assms(2,3)
  have t: "m_tree s \<noteq> None" by auto
  from reachable_child [OF assms(1) t, of idx] assms(2)
  have r: "r = expected_child D u idx" by simp
  have "reachable D u s1"
    using reachable.asked [OF assms(1), of idx] assms(2) by simp
  from reachable_child [OF this assms(3), of idx] r
  show ?thesis
    by (auto simp: reachable_child)
qed

theorem repeated_query_returns_same_child_witness:
  "reachable map3 map3_view map3_view
   \<and> GetChildAtIndex map3 map3_view 1 = (Some (CloneV (PairV 0x2020) ''[1]''), snd (GetChildAtIndex map3 map3_view 1))
   \<and> m_tree (snd (GetChildAtIndex map3 map3_view 1)) \<noteq> None
   \<and> fst (GetChildAtIndex map3 (snd (GetChildAtIndex map3 map3_view 1)) 1)
       = Some (CloneV (PairV 0x2020) ''[1]'')"
proof -
  have a: "reachable map3 map3_view map3_view"
    unfolding map3_view_def by (rule reachable_new)
  have "fst (GetChildAtIndex map3 map3_view 1) = Some (CloneV (PairV 0x2020) ''[1]'')"
    by code_simp
  then have b: "GetChildAtIndex map3 map3_view 1
                  = (Some (CloneV (PairV 0x2020) ''[1]''), snd (GetChildAtIndex map3 map3_view 1))"
    by (metis prod.collapse)
  have c: "m_tree (snd (GetChildAtIndex map3 map3_view 1)) \<noteq> None"
    by code_simp
  from repeated_query_returns_same_child [OF a b c] a b c show ?thesis
    by blast
qed

text \<open>
  Claim C1, as amended. \<^verbatim>\<open>GetChildAtIndex\<close>, \<^verbatim>\<open>advance\<close>, \<^verbatim>\<open>next\<close> and \<^verbatim>\<open>tree_min\<close> are total
  functions: each loop is defined by a recursion whose measure, the budget plus one
  minus the counter \<^verbatim>\<open>steps\<close>, decreases, for every debugger and so for every memory
  graph. The upward walk and the descent leave their loops with \<^verbatim>\<open>steps\<close> at most the
  budget plus one, \<^verbatim>\<open>advance\<close> with \<^verbatim>\<open>steps\<close> at most \<^verbatim>\<open>count\<close> and at most the budget
  plus one. When the fresh cursor, whose budget is the element count, returns nothing
  after \<open>k\<close> steps, \<^verbatim>\<open>GetChildAtIndex\<close> returns the null pointer for every index from \<open>k\<close>
  on. When it reaches at index \<open>k\<close> a node without right entry from which none of the
  entries up the parent links, as many as the budget plus one, is a left child, or a node
  with a right entry below which none of the left entries, as many as the budget plus
  one, is null, \<^verbatim>\<open>GetChildAtIndex\<close> returns the null pointer for every index above \<open>k\<close>, in
  every state reached after \<^verbatim>\<open>Update()\<close>. A cycle of parent links through no left child
  and a cycle of left links through no null entry are such points, for every budget.

  As stated, the claim fails twice. With the budget itself as the bound: the loops stop
  when \<^verbatim>\<open>steps > m_max_depth\<close>, after one step more than the budget. With any cycle as
  the point beyond which indices are absent: a step that takes a right link makes no
  test of the budget, so on two nodes whose right links point at each other every
  index below the element count has a child.
\<close>

theorem cursor_walks_stop_after_the_budget:
  "fst (next_loop D 0 it) \<le> Suc (m_max_depth it)
   \<and> fst (tree_min_loop D max_depth err 0 x xleft) \<le> Suc max_depth
   \<and> fst (advance_loop D count 0 it) \<le> count
   \<and> fst (advance_loop D count 0 it) \<le> Suc (m_max_depth it)
   \<and> (reachable D u s \<longrightarrow> k \<le> unat idx \<longrightarrow>
        fst (MapIterator_advance D
               (MapIterator_new (m_root_node u) (unat (element_count D u))) k) = None \<longrightarrow>
        fst (GetChildAtIndex D s idx) = None)
   \<and> (reachable D u s \<longrightarrow> k < unat idx \<longrightarrow>
        MapIterator_advance D
          (MapIterator_new (m_root_node u) (unat (element_count D u))) k = (Some v, c) \<longrightarrow>
        (MapEntry_null D (MapEntry_right D (Some v))
           \<and> (\<forall>j\<le>unat (element_count D u). \<not> is_left_child D (climb D (Some v) j))
         \<or> \<not> MapEntry_null D (MapEntry_right D (Some v))
           \<and> (\<forall>j\<le>unat (element_count D u).
                 \<not> MapEntry_null D (descend D (MapEntry_right D (Some v)) (Suc j)))) \<longrightarrow>
        fst (GetChildAtIndex D s idx) = None)
   \<and> (0 < p \<longrightarrow> climb D e p = e \<longrightarrow> (\<forall>j<p. \<not> is_left_child D (climb D e j)) \<longrightarrow>
        (\<forall>j. \<not> is_left_child D (climb D e j)))
   \<and> (0 < p \<longrightarrow> descend D y p = y \<longrightarrow> (\<forall>j<p. \<not> MapEntry_null D (descend D y j)) \<longrightarrow>
        (\<forall>j. \<not> MapEntry_null D (descend D y j)))"
proof -
  let ?fresh = "MapIterator_new (m_root_node u) (unat (element_count D u))"
  have absent: "fst (GetChildAtIndex D s idx) = None"
    if r: "reachable D u s" and k: "k \<le> unat idx"
      and f: "fst (MapIterator_advance D ?fresh k) = None" for k
  proof -
    from advance_fail_mono [OF f k] have "fst (cursor_at D u (unat idx)) = None"
      by (simp add: cursor_at_def)
    then have "expected_child D u idx = None"
      by (simp add: expected_child_def expected_pair_def)
    moreover from GetChildAtIndex_consistent [OF reachable_consistent [OF r], of idx]
    obtain s' where "GetChildAtIndex D s idx
                = (if m_tree s = None then None else expected_child D u idx, s')"
      by blast
    ultimately show ?thesis by simp
  qed
  have beyond: "fst (GetChildAtIndex D s idx) = None"
    if r: "reachable D u s" and k: "k < unat idx"
      and a: "MapIterator_advance D ?fresh k = (Some v, c)"
      and g: "MapEntry_null D (MapEntry_right D (Some v))
                \<and> (\<forall>j\<le>unat (element_count D u). \<not> is_left_child D (climb D (Some v) j))
              \<or> \<not> MapEntry_null D (MapEntry_right D (Some v))
                \<and> (\<forall>j\<le>unat (element_count D u).
                      \<not> MapEntry_null D (descend D (MapEntry_right D (Some v)) (Suc j)))"
  proof -
    from advance_gives_up [OF a g]
    have "fst (MapIterator_advance D ?fresh (Suc k)) = None" .
    moreover from k have "Suc k \<le> unat idx" by simp
    ultimately show ?thesis
      using absent [OF r] by blast
  qed
  have up: "\<forall>j. \<not> is_left_child D (climb D e j)"
    if "0 < p" and "climb D e p = e" and "\<forall>j<p. \<not> is_left_child D (climb D e j)"
    using parent_cycle_never_left [OF that] by blast
  have down: "\<forall>j. \<not> MapEntry_null D (descend D y j)"
    if "0 < p" and "descend D y p = y" and "\<forall>j<p. \<not> MapEntry_null D (descend D y j)"
    using left_cycle_never_null [OF that] by blast
  have b1: "fst (next_loop D 0 it) \<le> Suc (m_max_depth it)"
    using next_loop_steps [of 0 it D] by simp
  have b2: "fst (tree_min_loop D max_depth err 0 x xleft) \<le> Suc max_depth"
    using tree_min_loop_steps [of 0 max_depth D err x xleft] by simp
  have b3: "fst (advance_loop D count 0 it) \<le> count"
    and b4: "fst (advance_loop D count 0 it) \<le> Suc (m_max_depth it)"
    using advance_loop_steps [of 0 it D count] by simp_all
  show ?thesis
    using b1 b2 b3 b4 absent beyond up down by blast
qed


theorem cursor_walks_stop_after_the_budget_witness:
  "reachable cycle2 cycle_view cycle_view
   \<and> MapIterator_advance cycle2
        (MapIterator_new (m_root_node cycle_view) (unat (element_count cycle2 cycle_view))) 0
       = (Some (Ptr 0x3000), cycle_cursor)
   \<and> MapEntry_null cycle2 (MapEntry_right cycle2 (Some (Ptr 0x3000)))
   \<and> climb cycle2 (Some (Ptr 0x3000)) 2 = Some (Ptr 0x3000)
   \<and> \<not> is_left_child cycle2 (climb cycle2 (Some (Ptr 0x3000)) 0)
   \<and> \<not> is_left_child cycle2 (climb cycle2 (Some (Ptr 0x3000)) 1)
   \<and> fst (GetChildAtIndex cycle2 cycle_view 1) = None
   \<and> reachable left_cycle2 left_cycle_view left_cycle_view
   \<and> MapIterator_advance left_cycle2
        (MapIterator_new (m_root_node left_cycle_view)
           (unat (element_count left_cycle2 left_cycle_view))) 0
       = (Some (Ptr 0x3000), cycle_cursor)
   \<and> MapEntry_right left_cycle2 (Some (Ptr 0x3000)) = Some (Ptr 0x4000)
   \<and> \<not> MapEntry_null left_cycle2 (Some (Ptr 0x4000))
   \<and> descend left_cycle2 (Some (Ptr 0x4000)) 2 = Some (Ptr 0x4000)
   \<and> \<not> MapEntry_null left_cycle2 (descend left_cycle2 (Some (Ptr 0x4000)) 1)
   \<and> fst (GetChildAtIndex left_cycle2 left_cycle_view 1) = None"
proof -
  note thm1 = cursor_walks_stop_after_the_budget
    [where D = cycle2 and u = cycle_view and s = cycle_view and k = 0 and idx = 1
       and v = "Ptr 0x3000" and c = cycle_cursor and p = 2 and e = "Some (Ptr 0x3000)"
       and y = None and it = cycle_cursor and x = None and xleft = None and count = 0
       and max_depth = 0 and err = False]
  note thm2 = cursor_walks_stop_after_the_budget
    [where D = left_cycle2 and u = left_cycle_view and s = left_cycle_view and k = 0 and idx = 1
       and v = "Ptr 0x3000" and c = cycle_cursor and p = 2 and e = None
       and y = "Some (Ptr 0x4000)" and it = cycle_cursor and x = None and xleft = None
       and count = 0 and max_depth = 0 and err = False]
  have r1: "reachable cycle2 cycle_view cycle_view"
    unfolding cycle_view_def by (rule reachable_new)
  have a1: "MapIterator_advance cycle2
        (MapIterator_new (m_root_node cycle_view) (unat (element_count cycle2 cycle_view))) 0
       = (Some (Ptr 0x3000), cycle_cursor)"
    by code_simp
  have g1: "MapEntry_null cycle2 (MapEntry_right cycle2 (Some (Ptr 0x3000)))"
    by code_simp
  have c1: "climb cycle2 (Some (Ptr 0x3000)) 2 = Some (Ptr 0x3000)"
    by code_simp
  have l0: "\<not> is_left_child cycle2 (climb cycle2 (Some (Ptr 0x3000)) 0)"
    by code_simp
  have l1: "\<not> is_left_child cycle2 (climb cycle2 (Some (Ptr 0x3000)) 1)"
    by code_simp
  from l0 l1 have "\<forall>j<2. \<not> is_left_child cycle2 (climb cycle2 (Some (Ptr 0x3000)) j)"
    by (simp add: less_Suc_eq numeral_2_eq_2)
  with thm1 c1 have up: "\<forall>j. \<not> is_left_child cycle2 (climb cycle2 (Some (Ptr 0x3000)) j)"
    by simp
  have i1: "(0::nat) < unat (1 :: 32 word)"
    by simp
  from thm1 r1 a1 g1 up i1 have w1: "fst (GetChildAtIndex cycle2 cycle_view 1) = None"
    by blast
  have r2: "reachable left_cycle2 left_cycle_view left_cycle_view"
    unfolding left_cycle_view_def by (rule reachable_new)
  have a2: "MapIterator_advance left_cycle2
        (MapIterator_new (m_root_node left_cycle_view)
           (unat (element_count left_cycle2 left_cycle_view))) 0
       = (Some (Ptr 0x3000), cycle_cursor)"
    by code_simp
  have g2: "MapEntry_right left_cycle2 (Some (Ptr 0x3000)) = Some (Ptr 0x4000)"
    by code_simp
  have c2: "descend left_cycle2 (Some (Ptr 0x4000)) 2 = Some (Ptr 0x4000)"
    by code_simp
  have d0: "\<not> MapEntry_null left_cycle2 (descend left_cycle2 (Some (Ptr 0x4000)) 0)"
    by code_simp
  have d1: "\<not> MapEntry_null left_cycle2 (descend left_cycle2 (Some (Ptr 0x4000)) 1)"
    by code_simp
  from d0 d1 have "\<forall>j<2. \<not> MapEntry_null left_cycle2 (descend left_cycle2 (Some (Ptr 0x4000)) j)"
    by (simp add: less_Suc_eq numeral_2_eq_2)
  with thm2 c2 have down: "\<forall>j. \<not> MapEntry_null left_cycle2 (descend left_cycle2 (Some (Ptr 0x4000)) j)"
    by simp
  from d0 have nn: "\<not> MapEntry_null left_cycle2 (Some (Ptr 0x4000))"
    by simp
  from thm2 r2 a2 g2 nn down i1 have w2: "fst (GetChildAtIndex left_cycle2 left_cycle_view 1) = None"
    by (simp del: descend_0)
  from r1 a1 g1 c1 l0 l1 w1 r2 a2 g2 nn c2 d1 w2 show ?thesis
    by blast
qed

theorem walk_bound_and_cycle_point_counterexample:
  "m_root_node cycle_view = Some (Ptr 0x3000)
   \<and> fst (CalculateNumChildren cycle2 cycle_view) = 2
   \<and> m_max_depth (MapIterator_new (m_root_node cycle_view)
                     (unat (fst (CalculateNumChildren cycle2 cycle_view)))) = 2
   \<and> fst (next_loop cycle2 0
            (MapIterator_new (m_root_node cycle_view)
               (unat (fst (CalculateNumChildren cycle2 cycle_view))))) = 3
   \<and> fst (GetChildAtIndex cycle2 cycle_view 1) = None
   \<and> fst (CalculateNumChildren right_cycle12 right_cycle_view) = 12
   \<and> MapEntry_right right_cycle12 (Some (Ptr 0x3000)) = Some (Ptr 0x4000)
   \<and> MapEntry_right right_cycle12 (Some (Ptr 0x4000)) = Some (Ptr 0x3000)
   \<and> fst (GetChildAtIndex right_cycle12 right_cycle_view 0) = Some (CloneV (PairV 0x3020) ''[0]'')
   \<and> fst (GetChildAtIndex right_cycle12 right_cycle_view 2) = Some (CloneV (PairV 0x3020) ''[2]'')
   \<and> fst (GetChildAtIndex right_cycle12 right_cycle_view 3) = Some (CloneV (PairV 0x4020) ''[3]'')
   \<and> fst (GetChildAtIndex right_cycle12 right_cycle_view 11) = Some (CloneV (PairV 0x4020) ''[11]'')"
  by code_simp

lemmas sample_defs =
  process_debugger_def map3_def map3_memory_def no_layout_def
  LibcxxStdMapSyntheticFrontEnd_new_def Update_def Let_def UINT32_MAX_def GetValueAsUnsigned_def

lemmas front_end_defs =
  GetChildAtIndex_eq GetKeyValuePair_0 CalculateNumChildren_def GetDataType_def
  GetValueOffset_def potential_child_def

lemma no_layout_first:
  "GetChildAtIndex (no_layout map3) map3_no_layout_view 0
     = (Some (CloneV (PairV 0x100002FFF) (child_name 0)),
        map3_no_layout_view\<lparr>m_count := 3, m_element_type := Some PairT,
           m_iterators := [0 \<mapsto> MapIterator_new (Some (Ptr 0x3000)) 3]\<rparr>)"
  by (simp add: map3_no_layout_view_def sample_defs front_end_defs)

lemma child_name_0: "child_name 0 = ''[0]''"
  by code_simp

text \<open>
  Claim C4, at an input where it fails. With a type system that gives no payload offset,
  \<^verbatim>\<open>GetChildAtIndex(0)\<close> leaves \<open>m_skip_size\<close> at \<^verbatim>\<open>UINT32_MAX\<close>, reads the pair at that
  offset, returns a child and does not clear the tree pointer: the branch of index 0
  lacks the test \<^verbatim>\<open>m_skip_size == UINT32_MAX\<close> that the branch of the other indices has.
\<close>

theorem unresolved_offset_at_index_0:
  "ty_PayloadByteOffset (no_layout map3) (Some NodeT) (Some PairT) = None
   \<and> fst (GetChildAtIndex (no_layout map3) map3_no_layout_view 0)
       = Some (CloneV (PairV 0x100002FFF) ''[0]'')
   \<and> m_skip_size (snd (GetChildAtIndex (no_layout map3) map3_no_layout_view 0)) = UINT32_MAX
   \<and> m_tree (snd (GetChildAtIndex (no_layout map3) map3_no_layout_view 0)) = Some TreeV"
  unfolding no_layout_first
  by (simp add: map3_no_layout_view_def sample_defs child_name_0)


section \<open>Claims about a well-formed map\<close>


lemma reachable_map3_view: "reachable map3 map3_view map3_view"
  unfolding map3_view_def by (rule reachable_new)



text \<open>
  Claim C3. For a well-formed map whose tree is a search tree for the keys of its nodes,
  asking for the children of the indices 0 to \<open>N - 1\<close> in turn, from any state reached
  after \<^verbatim>\<open>Update()\<close>, returns children whose keys are the keys of the nodes in order, and
  these are strictly ascending; the index \<open>N\<close> asked next is absent. For the sample map
  of three elements, with the node of key 2 at the root, the node of key 1 to its left
  and the node of key 3 to its right, the indices 0, 1, 2 and 3 give the keys 1, 2, 3 and
  no child.
\<close>

theorem sequential_consumption_in_key_order:
  "(well_formed_map D u L R P t e key_of node_key \<and> bst (map_tree node_key t)
      \<and> reachable D u s \<longrightarrow>
      map (map_option key_of) (fst (consume D s (map of_nat [0..<size t])))
        = map (\<lambda>a. Some (node_key a)) (inorder t)
      \<and> sorted_wrt (<) (map node_key (inorder t))
      \<and> fst (GetChildAtIndex D (snd (consume D s (map of_nat [0..<size t]))) (of_nat (size t)))
          = None)
   \<and> map (map_option map3_key_of) (fst (consume map3 map3_view [0, 1, 2, 3]))
       = [Some 1, Some 2, Some 3, None]"
proof (intro conjI impI)
  assume a: "well_formed_map D u L R P t e key_of node_key \<and> bst (map_tree node_key t)
               \<and> reachable D u s"
  then have w: "well_formed_map D u L R P t e key_of node_key" and r: "reachable D u s"
    and b: "bst (map_tree node_key t)"
    by simp_all
  have "map (map_option key_of) (fst (consume D s (map of_nat [0..<size t])))
          = map (\<lambda>i. Some (node_key (inorder t ! i))) [0..<size t]"
    using well_formed_consume [OF w r, of "[0..<size t]"] by simp
  also have "\<dots> = map (\<lambda>a. Some (node_key a)) (map (\<lambda>i. inorder t ! i) [0..<length (inorder t)])"
    by simp
  also have "\<dots> = map (\<lambda>a. Some (node_key a)) (inorder t)"
    by (simp only: map_nth)
  finally show "map (map_option key_of) (fst (consume D s (map of_nat [0..<size t])))
                  = map (\<lambda>a. Some (node_key a)) (inorder t)" .
  from b show "sorted_wrt (<) (map node_key (inorder t))"
    by (simp add: bst_iff_sorted_wrt_less inorder_map)
  from w have "size t < 2 ^ 32"
    by (simp add: well_formed_map_def)
  then have "size t \<le> unat (of_nat (size t) :: 32 word)"
    by (simp add: unat_of_nat)
  from well_formed_element_at(3) [OF w consume_reachable [OF r] this]
  show "fst (GetChildAtIndex D (snd (consume D s (map of_nat [0..<size t]))) (of_nat (size t)))
          = None" .
next
  show "map (map_option map3_key_of) (fst (consume map3 map3_view [0, 1, 2, 3]))
          = [Some 1, Some 2, Some 3, None]"
    by code_simp
qed

theorem sequential_consumption_in_key_order_witness:
  "well_formed_map map3 map3_view map3_left map3_right map3_parent map3_tree 0x1000
     map3_key_of map3_node_key
   \<and> bst (map_tree map3_node_key map3_tree)
   \<and> reachable map3 map3_view map3_view
   \<and> map (map_option map3_key_of)
         (fst (consume map3 map3_view (map of_nat [0..<size map3_tree])))
       = map (\<lambda>a. Some (map3_node_key a)) (inorder map3_tree)
   \<and> sorted_wrt (<) (map map3_node_key (inorder map3_tree))"
proof -
  have b: "bst (map_tree map3_node_key map3_tree)"
    by (simp add: map3_tree_def map3_node_key_def cell_def map3_memory_def)
  from sequential_consumption_in_key_order [of map3 map3_view map3_left map3_right map3_parent
         map3_tree "0x1000" map3_key_of map3_node_key map3_view]
       map3_well_formed b reachable_map3_view
  show ?thesis by blast
qed

end
